theory Spec2Isabelle
  imports Complex_Main "HOL-Library.AList"
begin

section \<open>JavaScript values and objects\<close>

text \<open>
  The values a log can carry at run time. \<open>typeof\<close> is \<open>"object"\<close> for \<open>null\<close>, for arrays
  and for plain objects; \<open>undefined\<close> and symbols have a \<open>typeof\<close> of their own. A number
  is a rational here (JSON has neither NaN nor infinities); \<open>Number.isInteger\<close> asks whether
  it has no fractional part. A plain object is the list of its own enumerable properties in
  the order \<open>Object.keys\<close> and \<open>for ... in\<close> enumerate them.
\<close>

datatype json =
    JNull
  | JUndefined
  | JSymbol string
  | JString string
  | JBool bool
  | JNumber rat
  | JArray "json list"
  | JObject "(string \<times> json) list"

type_synonym log = "(string \<times> json) list"

definition js_typeof :: "json \<Rightarrow> string" where
  "js_typeof v =
     (case v of
        JNull \<Rightarrow> ''object''
      | JUndefined \<Rightarrow> ''undefined''
      | JSymbol _ \<Rightarrow> ''symbol''
      | JString _ \<Rightarrow> ''string''
      | JBool _ \<Rightarrow> ''boolean''
      | JNumber _ \<Rightarrow> ''number''
      | JArray _ \<Rightarrow> ''object''
      | JObject _ \<Rightarrow> ''object'')"

definition Number_isInteger :: "rat \<Rightarrow> bool" where
  "Number_isInteger r = (of_int \<lfloor>r\<rfloor> = r)"

text \<open>\<open>obj[k]\<close>: the value of the property, \<open>undefined\<close> when the object has none.\<close>

definition js_get :: "log \<Rightarrow> string \<Rightarrow> json" where
  "js_get obj k = (case map_of obj k of None \<Rightarrow> JUndefined | Some v \<Rightarrow> v)"

text \<open>
  \<open>obj[k] = v\<close>: an existing property keeps its place, a new one is enumerated last.
  (JavaScript enumerates properties whose name is a canonical array index first; no key
  written by the code below is one, see \<open>resourceKey\<close>.)
\<close>

definition js_set :: "log \<Rightarrow> string \<Rightarrow> json \<Rightarrow> log" where
  "js_set obj k v = AList.update k v obj"

text \<open>\<open>Object.assign(target, source)\<close>: for each own key of the source, in order,
  \<open>target[key] = source[key]\<close>.\<close>

definition object_assign :: "log \<Rightarrow> log \<Rightarrow> log" where
  "object_assign target source =
     fold (\<lambda>k t. js_set t k (js_get source k)) (map fst source) target"

subsection \<open>Log keys and values (kvs.ts)\<close>

abbreviation LogKey_Message :: string where "LogKey_Message \<equiv> ''message''"
abbreviation LogKey_TraceId :: string where "LogKey_TraceId \<equiv> ''traceId''"
abbreviation LogKey_SpanId :: string where "LogKey_SpanId \<equiv> ''spanId''"
abbreviation LogKey_SeverityText :: string where "LogKey_SeverityText \<equiv> ''severityText''"
abbreviation LogKey_SeverityNumber :: string where "LogKey_SeverityNumber \<equiv> ''severityNumber''"
abbreviation LogKey_TimestampUnixNano :: string where "LogKey_TimestampUnixNano \<equiv> ''timeUnixNano''"
abbreviation LogKey_ServiceName :: string where "LogKey_ServiceName \<equiv> ''service.name''"
abbreviation LogKey_ServiceVersion :: string where "LogKey_ServiceVersion \<equiv> ''service.version''"
abbreviation LogKey_Error :: string where "LogKey_Error \<equiv> ''error''"

abbreviation LogValue_SeverityNumberDebug :: json where "LogValue_SeverityNumberDebug \<equiv> JNumber 5"
abbreviation LogValue_SeverityNumberWarn :: json where "LogValue_SeverityNumberWarn \<equiv> JNumber 13"
abbreviation LogValue_SeverityNumberFatal :: json where "LogValue_SeverityNumberFatal \<equiv> JNumber 21"

section \<open>Log functions (fns.ts) and the logger middleware\<close>

text \<open>
  A \<open>StructuredLogFunction\<close> receives a reference to a log object and returns nothing; what
  it does is an effect on the world. The world holds the objects (a heap, indexed by
  reference), the lines written to the console, and the messages handed to the log queue.
\<close>

record logworld =
  heap :: "nat \<Rightarrow> log"
  console :: "log list"
  queue_sent :: "log list"

type_synonym StructuredLogFunction = "nat \<Rightarrow> logworld \<Rightarrow> logworld"

definition withProperties :: "log \<Rightarrow> StructuredLogFunction \<Rightarrow> StructuredLogFunction" where
  "withProperties injected logfn =
     (\<lambda>givenLog w.
        logfn givenLog
          (w\<lparr>heap := (heap w)(givenLog := object_assign (heap w givenLog) injected)\<rparr>))"

definition withDebug :: "bool \<Rightarrow> StructuredLogFunction \<Rightarrow> StructuredLogFunction" where
  "withDebug debugEnabled logfn =
     (if debugEnabled then logfn
      else (\<lambda>givenLog w.
              if js_get (heap w givenLog) LogKey_SeverityNumber \<noteq> LogValue_SeverityNumberDebug
              then logfn givenLog w
              else w))"

definition withChain :: "StructuredLogFunction list \<Rightarrow> StructuredLogFunction" where
  "withChain logfns = (\<lambda>givenLog w. fold (\<lambda>logfn. logfn givenLog) logfns w)"

text \<open>\<open>console.log(JSON.stringify(obj))\<close>: the line printed is the object as it is now.\<close>

definition consoleLogger :: StructuredLogFunction where
  "consoleLogger obj w = w\<lparr>console := console w @ [heap w obj]\<rparr>"

text \<open>\<open>promiseArray.push(queue.send(givenObj))\<close>: the object is handed to the queue.\<close>

definition queueLogger :: StructuredLogFunction where
  "queueLogger givenObj w = w\<lparr>queue_sent := queue_sent w @ [heap w givenObj]\<rparr>"

text \<open>
  The logger that \<open>structuredLoggerMiddleware\<close> stores under \<open>"logger"\<close>. \<open>LOG_DEBUG\<close> is an
  optional boolean binding; \<open>has_LOG_QUEUE\<close> says whether the \<open>LOG_QUEUE\<close> binding is defined.
\<close>

definition structuredLoggerMiddleware :: "bool option \<Rightarrow> bool \<Rightarrow> StructuredLogFunction" where
  "structuredLoggerMiddleware LOG_DEBUG has_LOG_QUEUE =
     (let baseLogger = withDebug (LOG_DEBUG = Some True) consoleLogger
      in if has_LOG_QUEUE then withChain [baseLogger, queueLogger] else baseLogger)"

section \<open>The OTLP mapper (otel.ts)\<close>


datatype AnyValue =
    StringValue string
  | BoolValue bool
  | IntValue rat
  | DoubleValue rat
  | ArrayValue "AnyValue list"
  | KvlistValue "(string \<times> AnyValue) list"

text \<open>The errors \<open>toAnyValue\<close> builds with \<open>newSimpleBug\<close> and \<open>newSimpleError\<close>: the
  message is the constructor, the context its arguments.\<close>

datatype SimpleError =
    UnknownTypeBug string json
  | ConvertArrayError "json list" json SimpleError
  | ConvertKvlistError "(string \<times> json) list" string json SimpleError

text \<open>What can be thrown: the \<open>TypeError\<close> of the runtime, and the bug the exporter throws
  with \<open>newSimpleBug\<close> when the queue returns neither a message nor an error.\<close>

datatype exn = TypeError | ReceivedNeitherBug

datatype 'a Result = Ok 'a | Err SimpleError

text \<open>
  \<open>toAnyValue\<close> switches on \<open>typeof v\<close>. The branch \<open>"object"\<close> is taken by arrays, by
  plain objects and by \<open>null\<close>: for \<open>null\<close>, \<open>Array.isArray\<close> is false and
  \<open>Object.keys(null)\<close> throws a \<open>TypeError\<close>, which nothing on the way catches. The
  \<open>default\<close> branch is taken by the remaining types (\<open>undefined\<close>, symbols) and returns
  an error value. The two loops return at the first element whose conversion is an error.
  A function either throws (\<open>Inl\<close>) or returns a \<open>Result\<close>, which is a value or an error.
\<close>

fun toAnyValue :: "json \<Rightarrow> exn + AnyValue Result"
and toAnyValue_array :: "json list \<Rightarrow> json list \<Rightarrow> AnyValue list \<Rightarrow> exn + AnyValue Result"
and toAnyValue_kvlist ::
  "(string \<times> json) list \<Rightarrow> (string \<times> json) list \<Rightarrow> (string \<times> AnyValue) list \<Rightarrow> exn + AnyValue Result"
where
  "toAnyValue (JString v) = Inr (Ok (StringValue v))"
| "toAnyValue (JBool v) = Inr (Ok (BoolValue v))"
| "toAnyValue (JNumber v) =
     (if Number_isInteger v then Inr (Ok (IntValue v)) else Inr (Ok (DoubleValue v)))"
| "toAnyValue (JArray v) = toAnyValue_array v v []"
| "toAnyValue (JObject v) = toAnyValue_kvlist v v []"
| "toAnyValue JNull = Inl TypeError"
| "toAnyValue JUndefined = Inr (Err (UnknownTypeBug ''undefined'' JUndefined))"
| "toAnyValue (JSymbol d) = Inr (Err (UnknownTypeBug ''symbol'' (JSymbol d)))"
| "toAnyValue_array v [] values = Inr (Ok (ArrayValue values))"
| "toAnyValue_array v (value # rest) values =
     (case toAnyValue value of
        Inl e \<Rightarrow> Inl e
      | Inr (Err err) \<Rightarrow> Inr (Err (ConvertArrayError v value err))
      | Inr (Ok ok) \<Rightarrow> toAnyValue_array v rest (values @ [ok]))"
| "toAnyValue_kvlist v [] kvs = Inr (Ok (KvlistValue kvs))"
| "toAnyValue_kvlist v ((key, value) # rest) kvs =
     (case toAnyValue value of
        Inl e \<Rightarrow> Inl e
      | Inr (Err err) \<Rightarrow> Inr (Err (ConvertKvlistError v key value err))
      | Inr (Ok ok) \<Rightarrow> toAnyValue_kvlist v rest (kvs @ [(key, ok)]))"


text \<open>The wire types of the OTLP request (otel.ts).\<close>

type_synonym KeyValue = "string \<times> AnyValue"

record LogRecord =
  timeUnixNano :: json
  observedTimeUnixNano :: int
  severityNumber :: json
  severityText :: json
  body :: AnyValue
  droppedAttributesCount :: nat
  traceId :: json
  spanId :: json

record InstrumentationScope =
  scope_name :: string
  scope_version :: string

record ScopeLogs =
  scope :: InstrumentationScope
  logRecords :: "LogRecord list"
  scope_schemaUrl :: string

record ResourceLogs =
  resource_attributes :: "KeyValue list"
  scopeLogs :: "ScopeLogs list"
  schemaUrl :: string

record ExportLogsServiceRequest =
  resourceLogs :: "ResourceLogs list"

record ExportLogsPartialSuccess =
  rejectedLogsRecords :: int
  errorMessage :: string

text \<open>
  The objects handed to a log function by the exporter and by the dispatch handler: one
  constructor per call site, carrying the fields of the logged object that vary.
\<close>

datatype sink_entry =
    UnableToExportAttribute log string json SimpleError
  | SendingBatch nat ExportLogsServiceRequest
  | UnexpectedSendError ExportLogsServiceRequest
  | UnableToSend ExportLogsServiceRequest
  | FullSuccess ExportLogsServiceRequest
  | PartialSuccessRejected string ExportLogsServiceRequest
  | PartialSuccessWarning string ExportLogsServiceRequest
  | ReceiveError
  | StoppingExporter
  | SendingFetchRequest
  | UnableToPublish nat
  | ErrorWhilePublishing nat
  | Published nat

text \<open>The case labels of the \<open>switch (key)\<close> in \<open>logsToExportRequest\<close>.\<close>

definition reserved_key :: "string \<Rightarrow> bool" where
  "reserved_key key =
     (key = LogKey_TimestampUnixNano \<or> key = LogKey_SeverityNumber \<or>
      key = LogKey_SeverityText \<or> key = LogKey_TraceId \<or> key = LogKey_SpanId \<or>
      key = LogKey_ServiceName \<or> key = LogKey_ServiceVersion)"

text \<open>
  The loop \<open>for (const key in log)\<close>: a reserved key is skipped; a value that converts is
  pushed onto the body; a value whose conversion returns an error counts as dropped and is
  reported to the local log function; an exception thrown by the conversion leaves the loop
  and the function (\<open>Inl\<close>, with what has been logged until then).
\<close>

fun body_loop ::
  "log \<Rightarrow> (string \<times> json) list \<Rightarrow> nat \<Rightarrow> KeyValue list \<Rightarrow> sink_entry list
     \<Rightarrow> (exn \<times> sink_entry list) + (nat \<times> KeyValue list \<times> sink_entry list)" where
  "body_loop lg [] dropped values sink = Inr (dropped, values, sink)"
| "body_loop lg ((key, value) # rest) dropped values sink =
     (if reserved_key key then body_loop lg rest dropped values sink
      else
        (case toAnyValue value of
           Inl e \<Rightarrow> Inl (e, sink)
         | Inr (Err err) \<Rightarrow>
             body_loop lg rest (dropped + 1) values
               (sink @ [UnableToExportAttribute lg key value err])
         | Inr (Ok ok) \<Rightarrow> body_loop lg rest dropped (values @ [(key, ok)]) sink))"

text \<open>One iteration of \<open>for (const log of logs)\<close> without the grouping: the record built
  for one log. \<open>now\<close> is \<open>Date.now()\<close> in milliseconds.\<close>

definition log_to_record ::
  "int \<Rightarrow> log \<Rightarrow> sink_entry list
     \<Rightarrow> (exn \<times> sink_entry list) + (LogRecord \<times> sink_entry list)" where
  "log_to_record now lg sink =
     (case body_loop lg lg 0 [] sink of
        Inl e \<Rightarrow> Inl e
      | Inr (dropped, values, sink') \<Rightarrow>
          Inr (\<lparr>timeUnixNano = js_get lg LogKey_TimestampUnixNano,
                observedTimeUnixNano = now * 1000000,
                severityNumber = js_get lg LogKey_SeverityNumber,
                severityText = js_get lg LogKey_SeverityText,
                body = KvlistValue values,
                droppedAttributesCount = dropped,
                traceId = js_get lg LogKey_TraceId,
                spanId = js_get lg LogKey_SpanId\<rparr>, sink'))"

text \<open>
  What the module takes from outside: \<open>PACKAGE_NAME\<close> and \<open>BUILD_VERSION\<close> of the build
  module, and the way the engine writes a number that is not a small integer (the shortest
  digits that read back as the number, with an exponent where the language asks for one).
\<close>

record build =
  PACKAGE_NAME :: string
  BUILD_VERSION :: string
  Number_toString :: "rat \<Rightarrow> string"

text \<open>The decimal digits of a natural number.\<close>

fun decimal :: "nat \<Rightarrow> string" where
  "decimal n =
     (if n < 10 then [''0123456789'' ! n]
      else decimal (n div 10) @ [''0123456789'' ! (n mod 10)])"

declare decimal.simps [simp del]

text \<open>
  A number as a string: an integer below \<open>10\<^sup>2\<^sup>1\<close> in absolute value is written with its
  decimal digits, after a minus sign when it is negative; every other number as the engine
  writes it.
\<close>

definition number_string :: "build \<Rightarrow> rat \<Rightarrow> string" where
  "number_string b n =
     (if Number_isInteger n \<and> \<bar>n\<bar> < 10 ^ 21
      then (if n < 0 then ''-'' else []) @ decimal (nat \<bar>\<lfloor>n\<rfloor>\<bar>)
      else Number_toString b n)"

text \<open>
  The conversion a template literal applies to a value, \<open>ToString\<close>. A string is itself;
  a symbol throws a \<open>TypeError\<close>; an array is \<open>join(",")\<close> of its elements, where
  \<open>undefined\<close> and \<open>null\<close> count as the empty string and every other element is
  converted in turn; a plain object is \<open>"[object Object]"\<close> by \<open>Object.prototype.toString\<close>,
  unless it has a property \<open>toString\<close> of its own: no value of a log is callable, so then
  neither \<open>toString\<close> nor \<open>valueOf\<close> gives a primitive and the conversion throws.
\<close>

fun ToString :: "build \<Rightarrow> json \<Rightarrow> exn + string"
and join_elements :: "build \<Rightarrow> json list \<Rightarrow> exn + string"
where
  "ToString b (JString s) = Inr s"
| "ToString b (JNumber n) = Inr (number_string b n)"
| "ToString b (JBool v) = Inr (if v then ''true'' else ''false'')"
| "ToString b JNull = Inr ''null''"
| "ToString b JUndefined = Inr ''undefined''"
| "ToString b (JSymbol d) = Inl TypeError"
| "ToString b (JArray v) = join_elements b v"
| "ToString b (JObject v) =
     (if ''toString'' \<in> fst ` set v then Inl TypeError else Inr ''[object Object]'')"
| "join_elements b [] = Inr []"
| "join_elements b (element # rest) =
     (case (if element = JUndefined \<or> element = JNull then Inr [] else ToString b element) of
        Inl e \<Rightarrow> Inl e
      | Inr next \<Rightarrow>
          (if rest = [] then Inr next
           else (case join_elements b rest of
                   Inl e \<Rightarrow> Inl e
                 | Inr others \<Rightarrow> Inr (next @ '','' @ others))))"

text \<open>
  \<open>log[LogKey.ServiceName] ?? "unknown"\<close>: the default replaces \<open>undefined\<close> (also a
  missing key) and \<open>null\<close>, and nothing else. The type \<open>Log\<close> declares both service keys
  as optional strings, but nothing checks a log at run time, so the value can be of any
  kind.
\<close>

definition serviceName_of :: "log \<Rightarrow> json" where
  "serviceName_of lg =
     (case js_get lg LogKey_ServiceName of
        JUndefined \<Rightarrow> JString ''unknown''
      | JNull \<Rightarrow> JString ''unknown''
      | v \<Rightarrow> v)"

definition serviceVersion_of :: "log \<Rightarrow> json" where
  "serviceVersion_of lg =
     (case js_get lg LogKey_ServiceVersion of
        JUndefined \<Rightarrow> JString ''0.0.0-unknown''
      | JNull \<Rightarrow> JString ''0.0.0-unknown''
      | v \<Rightarrow> v)"

abbreviation newline :: char where "newline \<equiv> CHR 0x0A"

text \<open>
  The template literal \<open>`${serviceName}\n${serviceVersion}`\<close>: the two values are
  converted to strings, the name first, and an exception of a conversion leaves the
  function.
\<close>

definition resourceKey :: "build \<Rightarrow> log \<Rightarrow> exn + string" where
  "resourceKey b lg =
     (case ToString b (serviceName_of lg) of
        Inl e \<Rightarrow> Inl e
      | Inr serviceName \<Rightarrow>
          (case ToString b (serviceVersion_of lg) of
             Inl e \<Rightarrow> Inl e
           | Inr serviceVersion \<Rightarrow> Inr (serviceName @ [newline] @ serviceVersion)))"

text \<open>
  \<open>requestsByResource\<close>: a plain object from keys to arrays of records. Every key holds a
  newline, so none is an array index or a property of \<open>Object.prototype\<close>, and
  \<open>Object.keys\<close> returns the keys in the order they were first written.
\<close>

type_synonym requestsByResource = "(string \<times> LogRecord list) list"

definition ensure_key :: "requestsByResource \<Rightarrow> string \<Rightarrow> requestsByResource" where
  "ensure_key reqs key = (if map_of reqs key = None then reqs @ [(key, [])] else reqs)"

definition push_record :: "requestsByResource \<Rightarrow> string \<Rightarrow> LogRecord \<Rightarrow> requestsByResource" where
  "push_record reqs key record =
     map (\<lambda>(k, records). if k = key then (k, records @ [record]) else (k, records)) reqs"

text \<open>The first loop of \<open>logsToExportRequest\<close>; \<open>clock i\<close> is \<open>Date.now()\<close> while the
  \<open>i\<close>-th log is mapped.\<close>

fun logs_loop ::
  "build \<Rightarrow> (nat \<Rightarrow> int) \<Rightarrow> nat \<Rightarrow> log list \<Rightarrow> requestsByResource \<Rightarrow> sink_entry list
     \<Rightarrow> (exn \<times> sink_entry list) + (requestsByResource \<times> sink_entry list)" where
  "logs_loop b clock i [] reqs sink = Inr (reqs, sink)"
| "logs_loop b clock i (lg # logs) reqs sink =
     (case resourceKey b lg of
        Inl e \<Rightarrow> Inl (e, sink)
      | Inr key \<Rightarrow>
          (let reqs1 = ensure_key reqs key
           in case log_to_record (clock i) lg sink of
                Inl e \<Rightarrow> Inl e
              | Inr (record, sink') \<Rightarrow>
                  logs_loop b clock (Suc i) logs (push_record reqs1 key record) sink'))"

text \<open>\<open>key.split("\n", 2)\<close>: the pieces between the separators, at most \<open>limit\<close> of them.\<close>

fun split_pieces :: "char \<Rightarrow> string \<Rightarrow> string \<Rightarrow> string list" where
  "split_pieces sep piece [] = [piece]"
| "split_pieces sep piece (c # cs) =
     (if c = sep then piece # split_pieces sep [] cs else split_pieces sep (piece @ [c]) cs)"

definition js_split :: "char \<Rightarrow> nat \<Rightarrow> string \<Rightarrow> string list" where
  "js_split sep limit s = take limit (split_pieces sep [] s)"

abbreviation otel_schema :: string where
  "otel_schema \<equiv> ''https://opentelemetry.io/schemas/1.30.0''"

text \<open>
  The \<open>ResourceLogs\<close> made for one key. The destructuring takes the first two pieces of the
  split; a key of \<open>requestsByResource\<close> always has two (lemma \<open>js_split_resourceKey\<close>), and
  the other cases, which the code cannot reach, give empty strings here.
\<close>

definition resourceLog_of :: "build \<Rightarrow> string \<Rightarrow> LogRecord list \<Rightarrow> ResourceLogs" where
  "resourceLog_of b key records =
     (let (serviceName, serviceVersion) =
            (case js_split newline 2 key of
               name # version # _ \<Rightarrow> (name, version)
             | [name] \<Rightarrow> (name, [])
             | [] \<Rightarrow> ([], []))
      in \<lparr>resource_attributes =
             [(''service.name'', StringValue serviceName),
              (''service.version'', StringValue serviceVersion)],
           scopeLogs =
             [\<lparr>scope = \<lparr>scope_name = PACKAGE_NAME b, scope_version = BUILD_VERSION b\<rparr>,
               logRecords = records,
               scope_schemaUrl = otel_schema\<rparr>],
           schemaUrl = otel_schema\<rparr>)"

text \<open>The second loop: one entry per key of \<open>requestsByResource\<close>, an empty array skipped.\<close>

fun request_loop :: "build \<Rightarrow> requestsByResource \<Rightarrow> ResourceLogs list \<Rightarrow> ResourceLogs list" where
  "request_loop b [] acc = acc"
| "request_loop b ((key, records) # rest) acc =
     (if length records = 0 then request_loop b rest acc
      else request_loop b rest (acc @ [resourceLog_of b key records]))"

definition logsToExportRequest ::
  "build \<Rightarrow> (nat \<Rightarrow> int) \<Rightarrow> sink_entry list \<Rightarrow> log list
     \<Rightarrow> (exn \<times> sink_entry list) + (ExportLogsServiceRequest \<times> sink_entry list)" where
  "logsToExportRequest b clock sink logs =
     (case logs_loop b clock 0 logs [] sink of
        Inl e \<Rightarrow> Inl e
      | Inr (reqs, sink') \<Rightarrow> Inr (\<lparr>resourceLogs = request_loop b reqs []\<rparr>, sink'))"

section \<open>The mapper, record by record\<close>

text \<open>What the body loop does with one property of the log, stated without the loop: the
  entry it pushes onto the body, and the entry it hands to the local log function.\<close>

definition kept_entry :: "string \<times> json \<Rightarrow> KeyValue option" where
  "kept_entry kv =
     (if reserved_key (fst kv) then None
      else (case toAnyValue (snd kv) of Inr (Ok ok) \<Rightarrow> Some (fst kv, ok) | _ \<Rightarrow> None))"

definition dropped_entry :: "log \<Rightarrow> string \<times> json \<Rightarrow> sink_entry option" where
  "dropped_entry lg kv =
     (if reserved_key (fst kv) then None
      else (case toAnyValue (snd kv) of
              Inr (Err err) \<Rightarrow> Some (UnableToExportAttribute lg (fst kv) (snd kv) err)
            | _ \<Rightarrow> None))"

definition record_of :: "int \<Rightarrow> log \<Rightarrow> LogRecord" where
  "record_of now lg =
     \<lparr>timeUnixNano = js_get lg LogKey_TimestampUnixNano,
      observedTimeUnixNano = now * 1000000,
      severityNumber = js_get lg LogKey_SeverityNumber,
      severityText = js_get lg LogKey_SeverityText,
      body = KvlistValue (List.map_filter kept_entry lg),
      droppedAttributesCount = length (List.map_filter (dropped_entry lg) lg),
      traceId = js_get lg LogKey_TraceId,
      spanId = js_get lg LogKey_SpanId\<rparr>"


text \<open>
  The grouping stated without the loop. \<open>first_keys\<close> lists the distinct elements of a list
  in the order of their first occurrence; \<open>key_of\<close> is the grouping key of a log whose
  key is computed; \<open>group_records\<close> lists, in input order, the records of the logs that
  have a given grouping key.
\<close>

fun first_keys :: "'a list \<Rightarrow> 'a list" where
  "first_keys [] = []"
| "first_keys (x # xs) = x # removeAll x (first_keys xs)"

definition key_of :: "build \<Rightarrow> log \<Rightarrow> string" where
  "key_of b lg = (case resourceKey b lg of Inr key \<Rightarrow> key | Inl e \<Rightarrow> [])"

text \<open>The two strings that the grouping key of a log joins, for a log whose key is
  computed: the service name and the service version as the template literal writes them.\<close>

definition service_strings :: "build \<Rightarrow> log \<Rightarrow> string \<times> string" where
  "service_strings b lg =
     (case (ToString b (serviceName_of lg), ToString b (serviceVersion_of lg)) of
        (Inr serviceName, Inr serviceVersion) \<Rightarrow> (serviceName, serviceVersion)
      | _ \<Rightarrow> ([], []))"

definition group_records ::
  "build \<Rightarrow> (nat \<Rightarrow> int) \<Rightarrow> log list \<Rightarrow> string \<Rightarrow> LogRecord list" where
  "group_records b clock logs key =
     map (\<lambda>(i, lg). record_of (clock i) lg)
       (filter (\<lambda>(i, lg). resourceKey b lg = Inr key) (List.enumerate 0 logs))"

definition records_for :: "string \<Rightarrow> (string \<times> LogRecord) list \<Rightarrow> LogRecord list" where
  "records_for key krs = map snd (filter (\<lambda>kr. fst kr = key) krs)"

definition group_step :: "requestsByResource \<Rightarrow> string \<times> LogRecord \<Rightarrow> requestsByResource" where
  "group_step reqs kr = push_record (ensure_key reqs (fst kr)) (fst kr) (snd kr)"

definition keyed_records ::
  "build \<Rightarrow> (nat \<Rightarrow> int) \<Rightarrow> nat \<Rightarrow> log list \<Rightarrow> (string \<times> LogRecord) list" where
  "keyed_records b clock i logs =
     map (\<lambda>(j, lg). (key_of b lg, record_of (clock j) lg)) (List.enumerate i logs)"

text \<open>Concrete inputs used to exercise the mapper: a build (no example holds a number that
  the engine is asked to write), and the three records of the grouping scenario (two of
  service \<open>a\<close>, one of service \<open>b\<close>).\<close>

definition example_build :: build where
  "example_build =
     \<lparr>PACKAGE_NAME = ''@archival/signal'', BUILD_VERSION = ''unknown'',
      Number_toString = (\<lambda>n. [])\<rparr>"

definition example_logs :: "log list" where
  "example_logs =
     [[(''service.name'', JString ''a''), (''service.version'', JString ''1''), (''k'', JNumber 1)],
      [(''service.name'', JString ''a''), (''service.version'', JString ''1''), (''k'', JNumber 2)],
      [(''service.name'', JString ''b''), (''service.version'', JString ''1''), (''k'', JNumber 3)]]"

definition example_request :: ExportLogsServiceRequest where
  "example_request =
     (case logsToExportRequest example_build (\<lambda>i. 0) [] example_logs of
        Inr (req, _) \<Rightarrow> req
      | Inl _ \<Rightarrow> \<lparr>resourceLogs = []\<rparr>)"

text \<open>A batch of two logs, the second with a service name and a service version, and the
  request the mapper makes from it.\<close>

definition example_mixed_logs :: "log list" where
  "example_mixed_logs =
     [[(LogKey_Message, JString ''other'')],
      [(LogKey_ServiceName, JString ''svc''), (LogKey_ServiceVersion, JString ''2.0''),
       (LogKey_SeverityNumber, JNumber 13), (LogKey_SeverityText, JString ''warn''),
       (LogKey_Message, JString ''hi'')]]"

definition example_mixed_request :: ExportLogsServiceRequest where
  "example_mixed_request =
     (case logsToExportRequest example_build (\<lambda>i. 0) [] example_mixed_logs of
        Inr (req, _) \<Rightarrow> req
      | Inl _ \<Rightarrow> \<lparr>resourceLogs = []\<rparr>)"

section \<open>Effects\<close>

text \<open>
  What the exporter and the dispatch handler do to the world, in the order they do it. A
  cancellation context is known by its reference; \<open>ContextCreated p\<close> is \<open>new Context(p)\<close>,
  with \<open>None\<close> for the constructor called without a parent. \<open>DoneObserved d\<close> is a call of
  \<open>done()\<close> on the exporter's outer context that returned \<open>d\<close>. \<open>ExportBatchCalled\<close> marks
  a call of \<open>#exportBatch\<close> with its argument.
\<close>

type_synonym ctx_ref = nat

datatype recv_result = RecvOk log | RecvCancelled | RecvError | RecvNeither

datatype effect =
    DoneObserved bool
  | ContextCreated "ctx_ref option"
  | TimerArmed nat
  | QueueReceive recv_result
  | QueueSend log
  | ExportBatchCalled "log list"
  | Posted ExportLogsServiceRequest
  | Logged sink_entry
  | Sleep nat

section \<open>The batching exporter (otel.ts)\<close>

text \<open>
  How one \<open>ofetch\<close> call ends: it throws something that is not a \<open>FetchError\<close>, it throws
  a \<open>FetchError\<close>, or it resolves; a response that is \<open>undefined\<close> or has no
  \<open>partialSuccess\<close> is \<open>HttpResponse None\<close>.
\<close>

datatype http_outcome =
    HttpThrowsOther
  | HttpThrowsFetchError
  | HttpResponse "ExportLogsPartialSuccess option"

definition outcome_entry :: "ExportLogsServiceRequest \<Rightarrow> http_outcome \<Rightarrow> sink_entry" where
  "outcome_entry request out =
     (case out of
        HttpThrowsOther \<Rightarrow> UnexpectedSendError request
      | HttpThrowsFetchError \<Rightarrow> UnableToSend request
      | HttpResponse None \<Rightarrow> FullSuccess request
      | HttpResponse (Some partialSuccess) \<Rightarrow>
          (if rejectedLogsRecords partialSuccess > 0
           then PartialSuccessRejected (errorMessage partialSuccess) request
           else PartialSuccessWarning (errorMessage partialSuccess) request))"

text \<open>
  \<open>#exportBatch\<close>: map the batch, log, make the one request, log how it ended. The result
  is the exception that left the method, if any, and the effects. \<open>clock\<close> is the clock the
  mapper reads, \<open>out\<close> the way the request ends.
\<close>

definition exportBatch ::
  "build \<Rightarrow> (nat \<Rightarrow> int) \<Rightarrow> http_outcome \<Rightarrow> log list \<Rightarrow> exn option \<times> effect list" where
  "exportBatch b clock out batch =
     (case logsToExportRequest b clock [] batch of
        Inl (e, sink) \<Rightarrow> (Some e, ExportBatchCalled batch # map Logged sink)
      | Inr (request, sink) \<Rightarrow>
          (None,
           ExportBatchCalled batch # map Logged sink @
           [Logged (SendingBatch (length batch) request),
            Posted request,
            Logged (outcome_entry request out)]))"

record exporter_options =
  batchSize :: nat
  fullBatchTimeout :: int
  receiveTimeout :: nat
  softStop :: bool

text \<open>
  What the world answers during one iteration of the loop in \<open>export\<close>; an iteration reads
  only the answers to the questions it asks.
\<close>

record tick =
  done_at_head :: bool
  now_at_head :: int
  mapper_clock :: "nat \<Rightarrow> int"
  http :: http_outcome
  now_after_export :: int
  received :: recv_result
  done_after_receive :: bool

datatype loop_exit = WhileConditionFalse | Break | Thrown exn | StillRunning

datatype iteration_result = Continue "log list" int | Exit loop_exit

text \<open>
  One pass through the \<open>while\<close> of \<open>export\<close>: the condition, then the body. With
  \<open>softStop\<close> the condition \<open>this.#softStop || !ctx.done()\<close> does not call \<open>done()\<close>. The
  pass either leaves the loop, or goes on to the next pass with a batch and a
  \<open>lastSendUnix\<close>.
\<close>

definition loop_iteration ::
  "build \<Rightarrow> exporter_options \<Rightarrow> ctx_ref \<Rightarrow> tick \<Rightarrow> log list \<Rightarrow> int
     \<Rightarrow> iteration_result \<times> effect list" where
  "loop_iteration b opts ctx t batch lastSendUnix =
     (let cond = (if softStop opts then [] else [DoneObserved (done_at_head t)])
      in if \<not> (softStop opts \<or> \<not> done_at_head t) then (Exit WhileConditionFalse, cond)
         else if length batch \<ge> batchSize opts \<or>
                 now_at_head t - lastSendUnix > fullBatchTimeout opts
         then
           (case exportBatch b (mapper_clock t) (http t) batch of
              (Some e, effs) \<Rightarrow> (Exit (Thrown e), cond @ effs)
            | (None, effs) \<Rightarrow> (Continue [] (now_after_export t), cond @ effs))
         else
           (let recv = cond @
                  [ContextCreated (if softStop opts then None else Some ctx),
                   TimerArmed (receiveTimeout opts),
                   QueueReceive (received t)]
            in case received t of
                 RecvCancelled \<Rightarrow>
                   (if done_after_receive t then (Exit Break, recv @ [DoneObserved True])
                    else (Continue batch lastSendUnix, recv @ [DoneObserved False]))
               | RecvError \<Rightarrow> (Continue batch lastSendUnix, recv @ [Logged ReceiveError])
               | RecvNeither \<Rightarrow> (Exit (Thrown ReceivedNeitherBug), recv)
               | RecvOk item \<Rightarrow> (Continue (batch @ [item]) lastSendUnix, recv)))"

text \<open>
  The loop, one tick per pass. The result is how the loop was left (\<open>StillRunning\<close> when
  the ticks end first), the batch held then, and the effects.
\<close>

fun export_loop ::
  "build \<Rightarrow> exporter_options \<Rightarrow> ctx_ref \<Rightarrow> tick list \<Rightarrow> log list \<Rightarrow> int
     \<Rightarrow> loop_exit \<times> log list \<times> effect list" where
  "export_loop b opts ctx [] batch lastSendUnix = (StillRunning, batch, [])"
| "export_loop b opts ctx (t # ts) batch lastSendUnix =
     (case loop_iteration b opts ctx t batch lastSendUnix of
        (Exit ex, effs) \<Rightarrow> (ex, batch, effs)
      | (Continue batch1 lastSendUnix1, effs) \<Rightarrow>
          (case export_loop b opts ctx ts batch1 lastSendUnix1 of
             (ex, batch', rest) \<Rightarrow> (ex, batch', effs @ rest)))"

datatype export_result = Resolved | Rejected exn | Pending

text \<open>
  \<open>export\<close>: the loop from an empty batch, then the last export of what the batch holds.
  \<open>start\<close> is \<open>Date.now()\<close> on entry; \<open>final_clock\<close> and \<open>final_http\<close> answer the last
  export.
\<close>

definition export ::
  "build \<Rightarrow> exporter_options \<Rightarrow> ctx_ref \<Rightarrow> int \<Rightarrow> tick list \<Rightarrow> (nat \<Rightarrow> int) \<Rightarrow> http_outcome
     \<Rightarrow> export_result \<times> effect list" where
  "export b opts ctx start ticks final_clock final_http =
     (case export_loop b opts ctx ticks [] start of
        (StillRunning, batch, effs) \<Rightarrow> (Pending, effs)
      | (Thrown e, batch, effs) \<Rightarrow> (Rejected e, effs)
      | (_, batch, effs) \<Rightarrow>
          (if length batch > 0
           then
             (case exportBatch b final_clock final_http batch of
                (Some e, effs2) \<Rightarrow> (Rejected e, effs @ effs2)
              | (None, effs2) \<Rightarrow> (Resolved, effs @ effs2 @ [Logged StoppingExporter]))
           else (Resolved, effs @ [Logged StoppingExporter])))"

text \<open>Readings of a list of effects: the logs received, the batches handed to
  \<open>#exportBatch\<close>, the requests posted, the messages sent to a queue.\<close>

definition received_logs :: "effect list \<Rightarrow> log list" where
  "received_logs effs =
     concat (map (\<lambda>e. case e of QueueReceive (RecvOk item) \<Rightarrow> [item] | _ \<Rightarrow> []) effs)"

definition flushed_batches :: "effect list \<Rightarrow> log list list" where
  "flushed_batches effs =
     concat (map (\<lambda>e. case e of ExportBatchCalled batch \<Rightarrow> [batch] | _ \<Rightarrow> []) effs)"

definition posted_requests :: "effect list \<Rightarrow> ExportLogsServiceRequest list" where
  "posted_requests effs =
     concat (map (\<lambda>e. case e of Posted request \<Rightarrow> [request] | _ \<Rightarrow> []) effs)"

definition queue_sends :: "effect list \<Rightarrow> log list" where
  "queue_sends effs =
     concat (map (\<lambda>e. case e of QueueSend message \<Rightarrow> [message] | _ \<Rightarrow> []) effs)"

definition sends_and_sleeps :: "effect list \<Rightarrow> effect list" where
  "sends_and_sleeps effs =
     filter (\<lambda>e. case e of QueueSend _ \<Rightarrow> True | Sleep _ \<Rightarrow> True | _ \<Rightarrow> False) effs"



definition idle_tick :: tick where
  "idle_tick =
     \<lparr>done_at_head = False, now_at_head = 0, mapper_clock = (\<lambda>i. 0),
      http = HttpThrowsFetchError, now_after_export = 0, received = RecvCancelled,
      done_after_receive = False\<rparr>"

definition receive_tick :: "log \<Rightarrow> tick" where
  "receive_tick item = idle_tick\<lparr>received := RecvOk item\<rparr>"

definition stop_tick :: tick where
  "stop_tick = idle_tick\<lparr>done_at_head := True, done_after_receive := True\<rparr>"

text \<open>A run that flushes after every log, with every request failing.\<close>

definition eager_options :: exporter_options where
  "eager_options = \<lparr>batchSize = 1, fullBatchTimeout = 2000, receiveTimeout = 1500, softStop = True\<rparr>"

definition failing_run :: "export_result \<times> effect list" where
  "failing_run =
     export example_build eager_options 7 0
       [receive_tick [(''k'', JNumber 1)], idle_tick, receive_tick [(''k'', JNumber 2)], idle_tick,
        stop_tick]
       (\<lambda>i. 0) HttpThrowsFetchError"

section \<open>The dispatch handler\<close>

type_synonym queue_error = string

datatype cause = UnknownContentType string | QueueFailed queue_error

datatype http_reply = Response nat | HTTPException nat cause

datatype send_loop_end = SendLoopBreak | SendLoopThrow queue_error | SendLoopDone

text \<open>
  The \<open>for\<close> loop of \<open>dispatchPostHandler\<close>, from a value of \<open>attempt\<close>. \<open>send_result n\<close>
  is what the queue returns to the send of attempt \<open>n\<close>: \<open>None\<close> for a result without an
  error. The result is how the loop ended, the value of \<open>attempt\<close> then, and the effects.
\<close>

function send_loop ::
  "(nat \<Rightarrow> queue_error option) \<Rightarrow> log \<Rightarrow> nat \<Rightarrow> send_loop_end \<times> nat \<times> effect list" where
  "send_loop send_result fetchRequest attempt =
     (if attempt < 5 then
        (let sent = [Logged SendingFetchRequest, QueueSend fetchRequest]
         in case send_result attempt of
              None \<Rightarrow> (SendLoopBreak, attempt, sent)
            | Some err \<Rightarrow>
                (if attempt = 4
                 then (SendLoopThrow err, attempt, sent @ [Logged (UnableToPublish (attempt + 1))])
                 else
                   (case send_loop send_result fetchRequest (attempt + 1) of
                      (end, attempt', rest) \<Rightarrow>
                        (end, attempt',
                         sent @ [Logged (ErrorWhilePublishing (attempt + 1)), Sleep 500] @ rest))))
      else (SendLoopDone, attempt, []))"
  by pat_completeness auto
termination
  by (relation "measure (\<lambda>(send_result, fetchRequest, attempt). 5 - attempt)") auto

text \<open>
  \<open>dispatchPostHandler\<close>. \<open>inspectUrl\<close> is the external classifier, here the content type it
  finds for a URL, if any.
\<close>

definition dispatchPostHandler ::
  "(string \<Rightarrow> string option) \<Rightarrow> (nat \<Rightarrow> queue_error option) \<Rightarrow> string
     \<Rightarrow> http_reply \<times> effect list" where
  "dispatchPostHandler inspectUrl send_result url =
     (case inspectUrl url of
        None \<Rightarrow> (HTTPException 400 (UnknownContentType url), [])
      | Some contentType \<Rightarrow>
          (let fetchRequest = [(''url'', JString url), (''contentType'', JString contentType)]
           in case send_loop send_result fetchRequest 0 of
                (SendLoopThrow err, attempt, effs) \<Rightarrow> (HTTPException 500 (QueueFailed err), effs)
              | (_, attempt, effs) \<Rightarrow> (Response 200, effs @ [Logged (Published (attempt + 1))])))"

text \<open>The sends and the waits of \<open>n\<close> attempts: a send, then a wait of 500 ms and a send
  for each further attempt.\<close>

definition attempts_pattern :: "nat \<Rightarrow> log \<Rightarrow> effect list" where
  "attempts_pattern n fetchRequest =
     QueueSend fetchRequest # concat (replicate (n - 1) [Sleep 500, QueueSend fetchRequest])"

definition fetchRequest_of :: "string \<Rightarrow> string \<Rightarrow> log" where
  "fetchRequest_of url contentType = [(''url'', JString url), (''contentType'', JString contentType)]"

section \<open>Cancellation contexts\<close>

text \<open>
  Modelled from the spec: the class \<open>Context\<close> (\<open>core/src/context.ts\<close>) is not among the
  sources, only its test and its callers are. The model follows section 4.1 of the
  specification: a scope has a cancelled flag, an ordered collection of children and an
  optional parent; a child registers itself with its parent on creation and is created
  cancelled when the parent is cancelled; \<open>cancel()\<close> marks the scope and walks the subtree
  through the children; \<open>done()\<close> polls the flag. The scopes created so far are a list, and
  a reference to a scope is its index.
\<close>

record scope =
  parent :: "ctx_ref option"
  children :: "ctx_ref list"
  cancelled :: bool

type_synonym scopes = "scope list"

definition Context_new :: "ctx_ref option \<Rightarrow> scopes \<Rightarrow> ctx_ref \<times> scopes" where
  "Context_new p st =
     (let self = length st;
          born = (case p of None \<Rightarrow> False | Some q \<Rightarrow> cancelled (st ! q));
          st1 = st @ [\<lparr>parent = p, children = [], cancelled = born\<rparr>]
      in (self,
          case p of
            None \<Rightarrow> st1
          | Some q \<Rightarrow> st1[q := (st1 ! q)\<lparr>children := children (st1 ! q) @ [self]\<rparr>]))"

definition mark :: "ctx_ref \<Rightarrow> scopes \<Rightarrow> scopes" where
  "mark i st = st[i := (st ! i)\<lparr>cancelled := True\<rparr>]"

text \<open>The walk of \<open>cancel()\<close>, with fuel for the depth: mark the scope, then walk each
  child. \<open>Context_cancel\<close> gives it as much fuel as there are scopes; the theorems below
  show that this is enough.\<close>

fun cancel_walk :: "nat \<Rightarrow> ctx_ref \<Rightarrow> scopes \<Rightarrow> scopes" where
  "cancel_walk 0 i st = st"
| "cancel_walk (Suc fuel) i st = fold (cancel_walk fuel) (children (st ! i)) (mark i st)"

definition Context_cancel :: "ctx_ref \<Rightarrow> scopes \<Rightarrow> scopes" where
  "Context_cancel i st = cancel_walk (length st) i st"

definition Context_done :: "ctx_ref \<Rightarrow> scopes \<Rightarrow> bool" where
  "Context_done i st = cancelled (st ! i)"

text \<open>A program's use of contexts is a sequence of constructor calls and cancellations; a
  reference it passes is one it has got from a constructor before (otherwise \<open>None\<close>).\<close>

datatype scope_op = New "ctx_ref option" | Cancel ctx_ref

fun run_ops :: "scope_op list \<Rightarrow> scopes \<Rightarrow> scopes option" where
  "run_ops [] st = Some st"
| "run_ops (New None # ops) st = run_ops ops (snd (Context_new None st))"
| "run_ops (New (Some q) # ops) st =
     (if q < length st then run_ops ops (snd (Context_new (Some q) st)) else None)"
| "run_ops (Cancel i # ops) st =
     (if i < length st then run_ops ops (Context_cancel i st) else None)"

text \<open>\<open>descendant st s d\<close>: following parents from \<open>d\<close> leads to \<open>s\<close> (or \<open>d\<close> is \<open>s\<close>).\<close>

inductive descendant :: "scopes \<Rightarrow> ctx_ref \<Rightarrow> ctx_ref \<Rightarrow> bool"
  for st :: scopes and s :: ctx_ref where
  descendant_self: "s < length st \<Longrightarrow> descendant st s s"
| descendant_child:
    "descendant st s p \<Longrightarrow> d < length st \<Longrightarrow> parent (st ! d) = Some p \<Longrightarrow> descendant st s d"

text \<open>The links of the scopes without the flags, and what the proofs say about them: a
  scope reached from another through \<open>k\<close> child links; parents and children that agree, with
  a child created after its parent; a cancelled parent has only cancelled children.\<close>

type_synonym shape = "(ctx_ref option \<times> ctx_ref list) list"

definition shape :: "scopes \<Rightarrow> shape" where
  "shape st = map (\<lambda>s. (parent s, children s)) st"

fun reach_in :: "shape \<Rightarrow> nat \<Rightarrow> ctx_ref \<Rightarrow> ctx_ref \<Rightarrow> bool" where
  "reach_in sh 0 s d = (s = d)"
| "reach_in sh (Suc k) s d = (\<exists>c \<in> set (snd (sh ! s)). reach_in sh k c d)"

definition wf_shape :: "shape \<Rightarrow> bool" where
  "wf_shape sh =
     ((\<forall>d < length sh. \<forall>p. fst (sh ! d) = Some p \<longrightarrow> p < d \<and> d \<in> set (snd (sh ! p))) \<and>
      (\<forall>p < length sh. \<forall>c \<in> set (snd (sh ! p)). p < c \<and> c < length sh))"

definition closed_down :: "scopes \<Rightarrow> bool" where
  "closed_down st =
     (\<forall>d < length st. \<forall>p. parent (st ! d) = Some p \<and> cancelled (st ! p) \<longrightarrow> cancelled (st ! d))"

definition scopes_inv :: "scopes \<Rightarrow> bool" where
  "scopes_inv st = (wf_shape (shape st) \<and> closed_down st)"

text \<open>A grandparent, a parent and a child, as in the hierarchical scenario; and the same
  scopes after the grandparent was cancelled and the child got a child of its own.\<close>

definition family :: scopes where
  "family =
     [\<lparr>parent = None, children = [1], cancelled = False\<rparr>,
      \<lparr>parent = Some 0, children = [2], cancelled = False\<rparr>,
      \<lparr>parent = Some 1, children = [], cancelled = False\<rparr>]"

definition family_after :: scopes where
  "family_after =
     [\<lparr>parent = None, children = [1], cancelled = True\<rparr>,
      \<lparr>parent = Some 0, children = [2], cancelled = True\<rparr>,
      \<lparr>parent = Some 1, children = [3], cancelled = True\<rparr>,
      \<lparr>parent = Some 2, children = [], cancelled = True\<rparr>]"
section \<open>Properties of the log functions\<close>

lemma js_get_js_set: "js_get (js_set obj k v) k' = (if k' = k then v else js_get obj k')"
  by (simp add: js_get_def js_set_def update_conv')

lemma js_get_assign_fold_other:
  "k \<notin> set ks \<Longrightarrow> js_get (fold (\<lambda>k t. js_set t k (js_get src k)) ks obj) k = js_get obj k"
  by (induction ks arbitrary: obj) (auto simp: js_get_js_set)

lemma js_get_assign_fold_in:
  "k \<in> set ks \<Longrightarrow> js_get (fold (\<lambda>k t. js_set t k (js_get src k)) ks obj) k = js_get src k"
proof (induction ks arbitrary: obj)
  case Nil
  then show ?case by simp
next
  case (Cons a ks)
  show ?case
  proof (cases "k \<in> set ks")
    case True
    then show ?thesis using Cons.IH by simp
  next
    case False
    with Cons.prems have "a = k" by simp
    with False show ?thesis by (simp add: js_get_assign_fold_other js_get_js_set)
  qed
qed

lemma js_get_object_assign:
  "js_get (object_assign obj injected) k =
     (if k \<in> fst ` set injected then js_get injected k else js_get obj k)"
  by (simp add: object_assign_def js_get_assign_fold_in js_get_assign_fold_other)

text \<open>
  C8. With debug disabled, the function returned by \<open>withDebug\<close> invokes the wrapped log
  function on a log exactly when the log's \<open>severityNumber\<close> is not the debug value 5, and
  otherwise does nothing at all; with debug enabled it is the wrapped function itself. In
  the middleware the console sink is wrapped this way with \<open>LOG_DEBUG === true\<close>, so a log is
  printed unless \<open>LOG_DEBUG\<close> is not true and the log has debug severity.
\<close>

theorem withDebug_drops_exactly_debug:
  "withDebug True logfn = logfn \<and>
   withDebug False logfn givenLog w =
     (if js_get (heap w givenLog) LogKey_SeverityNumber = JNumber 5 then w
      else logfn givenLog w) \<and>
   console (structuredLoggerMiddleware LOG_DEBUG has_LOG_QUEUE givenLog w) =
     (if LOG_DEBUG \<noteq> Some True \<and> js_get (heap w givenLog) LogKey_SeverityNumber = JNumber 5
      then console w
      else console w @ [heap w givenLog])"
  by (simp add: withDebug_def structuredLoggerMiddleware_def withChain_def consoleLogger_def
      queueLogger_def Let_def)

text \<open>
  C10. The function returned by \<open>withProperties\<close> calls the wrapped log function on the
  same reference, in a world that differs from the caller's only in that object; there,
  every injected key holds the injected value, whatever the caller's log held under that
  key, and every other key holds what the caller gave.
\<close>

theorem withProperties_injected_overrides:
  "withProperties injected logfn givenLog w =
     logfn givenLog (w\<lparr>heap := (heap w)(givenLog := object_assign (heap w givenLog) injected)\<rparr>) \<and>
   (\<forall>other. other \<noteq> givenLog \<longrightarrow>
      ((heap w)(givenLog := object_assign (heap w givenLog) injected)) other = heap w other) \<and>
   (\<forall>k \<in> fst ` set injected.
      js_get (object_assign (heap w givenLog) injected) k = js_get injected k) \<and>
   (\<forall>k. k \<notin> fst ` set injected \<longrightarrow>
      js_get (object_assign (heap w givenLog) injected) k = js_get (heap w givenLog) k)"
  by (simp add: withProperties_def js_get_object_assign)

theorem withProperties_injected_overrides_witness:
  "console
     (withProperties [(''a'', JString ''b'')] consoleLogger 0
        \<lparr>heap = (\<lambda>_. [(''a'', JString ''mine''), (''c'', JString ''d'')]), console = [],
         queue_sent = []\<rparr>)
     = [[(''a'', JString ''b''), (''c'', JString ''d'')]] \<and>
   js_get (object_assign [(''a'', JString ''mine''), (''c'', JString ''d'')] [(''a'', JString ''b'')]) ''a''
     = JString ''b'' \<and>
   js_get (object_assign [(''a'', JString ''mine''), (''c'', JString ''d'')] [(''a'', JString ''b'')]) ''c''
     = JString ''d''"
  using withProperties_injected_overrides
    [of "[(''a'', JString ''b'')]" consoleLogger 0
        "\<lparr>heap = (\<lambda>_. [(''a'', JString ''mine''), (''c'', JString ''d'')]), console = [],
          queue_sent = []\<rparr>"]
  by (simp add: consoleLogger_def object_assign_def js_set_def js_get_def)

section \<open>Properties of the mapper\<close>

lemma body_loop_Inr:
  "body_loop lg kvs dropped vals sink = Inr (dropped', vals', sink') \<Longrightarrow>
     vals' = vals @ List.map_filter kept_entry kvs \<and>
     sink' = sink @ List.map_filter (dropped_entry lg) kvs \<and>
     dropped' = dropped + length (List.map_filter (dropped_entry lg) kvs)"
  by (induction lg kvs dropped vals sink rule: body_loop.induct)
     (auto simp: kept_entry_def dropped_entry_def
           split: if_splits sum.splits Result.splits)

lemma body_loop_isl:
  "isl (body_loop lg kvs dropped vals sink) \<longleftrightarrow>
     (\<exists>kv \<in> set kvs. \<not> reserved_key (fst kv) \<and> isl (toAnyValue (snd kv)))"
proof (induction lg kvs dropped vals sink rule: body_loop.induct)
  case (1 lg dropped vals sink)
  then show ?case by simp
next
  case (2 lg key v rest dropped vals sink)
  then show ?case
    by (cases "toAnyValue v") (auto split: Result.splits)
qed

lemma log_to_record_Inr:
  "log_to_record now lg sink = Inr (r, sink') \<Longrightarrow>
     r = record_of now lg \<and> sink' = sink @ List.map_filter (dropped_entry lg) lg"
  unfolding log_to_record_def record_of_def
  by (auto split: sum.splits dest!: body_loop_Inr)

lemma log_to_record_isl:
  "isl (log_to_record now lg sink) \<longleftrightarrow>
     (\<exists>kv \<in> set lg. \<not> reserved_key (fst kv) \<and> isl (toAnyValue (snd kv)))"
proof -
  have "isl (log_to_record now lg sink) = isl (body_loop lg lg 0 [] sink)"
    unfolding log_to_record_def by (simp split: sum.splits prod.splits)
  then show ?thesis by (simp add: body_loop_isl)
qed

lemma map_filter_eq_filter_map:
  "List.map_filter f xs = map (the \<circ> f) (filter (\<lambda>x. f x \<noteq> None) xs)"
  by (simp add: List.map_filter_def)

lemma first_keys_set: "set (first_keys xs) = set xs"
  by (induction xs) auto

lemma first_keys_distinct: "distinct (first_keys xs)"
  by (induction xs) (auto simp: distinct_removeAll)

lemma logs_loop_Inr:
  "logs_loop b clock i logs reqs sink = Inr (reqs', sink') \<Longrightarrow>
     reqs' = foldl group_step reqs (keyed_records b clock i logs) \<and>
     (\<forall>lg \<in> set logs. resourceKey b lg = Inr (key_of b lg))"
proof (induction logs arbitrary: i reqs sink)
  case Nil
  then show ?case by (simp add: keyed_records_def)
next
  case (Cons lg logs)
  from Cons.prems obtain key where key: "resourceKey b lg = Inr key"
    by (auto split: sum.splits)
  from Cons.prems key obtain r s1 where
    r: "log_to_record (clock i) lg sink = Inr (r, s1)" and
    rest: "logs_loop b clock (Suc i) logs
             (push_record (ensure_key reqs key) key r) s1 = Inr (reqs', sink')"
    by (auto simp: Let_def split: sum.splits)
  from r have "r = record_of (clock i) lg" by (simp add: log_to_record_Inr)
  moreover from key have "key_of b lg = key" by (simp add: key_of_def)
  ultimately show ?case
    using Cons.IH[OF rest] key by (simp add: keyed_records_def group_step_def)
qed

lemma records_for_Cons:
  "records_for k (kr # krs) = (if fst kr = k then snd kr # records_for k krs else records_for k krs)"
  by (simp add: records_for_def)

lemma push_record_other: "key \<notin> fst ` set reqs \<Longrightarrow> push_record reqs key r = reqs"
  unfolding push_record_def by (induction reqs) auto

lemma group_step_old:
  "k \<in> fst ` set reqs \<Longrightarrow>
     group_step reqs (k, r) =
       map (\<lambda>(k', rs). if k' = k then (k', rs @ [r]) else (k', rs)) reqs"
  by (auto simp: group_step_def ensure_key_def push_record_def map_of_eq_None_iff)

lemma group_step_new:
  assumes "k \<notin> fst ` set reqs"
  shows "group_step reqs (k, r) = reqs @ [(k, [r])]"
proof -
  have "push_record (reqs @ [(k, [])]) k r = push_record reqs k r @ [(k, [r])]"
    by (simp add: push_record_def)
  with assms show ?thesis
    by (simp add: group_step_def ensure_key_def push_record_other map_of_eq_None_iff)
qed

lemma filter_removeAll_absorb: "\<not> P k \<Longrightarrow> filter P (removeAll k xs) = filter P xs"
  by (induction xs) auto

lemma foldl_group_step:
  "foldl group_step reqs krs =
     map (\<lambda>(k, rs). (k, rs @ records_for k krs)) reqs @
     map (\<lambda>k. (k, records_for k krs))
       (filter (\<lambda>k. k \<notin> fst ` set reqs) (first_keys (map fst krs)))"
proof (induction krs arbitrary: reqs)
  case Nil
  then show ?case by (simp add: records_for_def)
next
  case (Cons kr krs)
  obtain k r where kr: "kr = (k, r)" by (cases kr)
  show ?case
  proof (cases "k \<in> fst ` set reqs")
    case True
    let ?g1 = "map (\<lambda>(k', rs). if k' = k then (k', rs @ [r]) else (k', rs)) reqs"
    have g1: "group_step reqs kr = ?g1"
      unfolding kr using True by (rule group_step_old)
    have keys: "fst ` set ?g1 = fst ` set reqs" by (force simp: image_iff split: if_splits)
    have a: "map (\<lambda>(k', rs). (k', rs @ records_for k' krs)) ?g1 =
             map (\<lambda>(k', rs). (k', rs @ records_for k' (kr # krs))) reqs"
      by (auto simp: kr records_for_Cons)
    have b: "map (\<lambda>k'. (k', records_for k' krs))
               (filter (\<lambda>k'. k' \<notin> fst ` set reqs) (first_keys (map fst krs))) =
             map (\<lambda>k'. (k', records_for k' (kr # krs)))
               (filter (\<lambda>k'. k' \<notin> fst ` set reqs) (first_keys (map fst (kr # krs))))"
      using True by (auto simp: kr records_for_Cons filter_removeAll_absorb intro!: map_cong)
    show ?thesis
      using Cons.IH[of ?g1] g1 keys a b by simp
  next
    case False
    let ?g1 = "reqs @ [(k, [r])]"
    have g1: "group_step reqs kr = ?g1"
      unfolding kr using False by (rule group_step_new)
    have a: "map (\<lambda>(k', rs). (k', rs @ records_for k' krs)) reqs =
             map (\<lambda>(k', rs). (k', rs @ records_for k' (kr # krs))) reqs"
      using False by (auto simp: kr records_for_Cons image_iff)
    have b: "filter (\<lambda>k'. k' \<notin> fst ` set ?g1) (first_keys (map fst krs)) =
             filter (\<lambda>k'. k' \<notin> fst ` set reqs) (removeAll k (first_keys (map fst krs)))"
      by (auto simp: removeAll_filter_not_eq intro!: filter_cong)
    have c: "map (\<lambda>k'. (k', records_for k' krs))
               (filter (\<lambda>k'. k' \<notin> fst ` set reqs) (removeAll k (first_keys (map fst krs)))) =
             map (\<lambda>k'. (k', records_for k' (kr # krs)))
               (filter (\<lambda>k'. k' \<notin> fst ` set reqs) (removeAll k (first_keys (map fst krs))))"
      by (auto simp: kr records_for_Cons intro!: map_cong)
    show ?thesis
      using Cons.IH[of ?g1] g1 a b c False by (simp add: kr records_for_Cons)
  qed
qed

lemma request_loop_eq:
  "request_loop b reqs acc =
     acc @ map (\<lambda>(k, rs). resourceLog_of b k rs) (filter (\<lambda>(k, rs). rs \<noteq> []) reqs)"
  by (induction b reqs acc rule: request_loop.induct) auto

lemma keyed_records_keys: "map fst (keyed_records b clock i logs) = map (key_of b) logs"
proof -
  have "map fst (keyed_records b clock i logs) = map (key_of b \<circ> snd) (List.enumerate i logs)"
    by (simp add: keyed_records_def comp_def case_prod_unfold)
  then show ?thesis by (simp flip: map_map)
qed

lemma keyed_records_key_set: "fst ` set (keyed_records b clock i logs) = key_of b ` set logs"
  using arg_cong[OF keyed_records_keys[of b clock i logs], of set] by simp

lemma in_set_enumerate_snd: "x \<in> set (List.enumerate i xs) \<Longrightarrow> snd x \<in> set xs"
  by (cases x) (auto simp: in_set_enumerate_eq)

lemma records_for_keyed:
  assumes "\<forall>lg \<in> set logs. resourceKey b lg = Inr (key_of b lg)"
  shows "records_for k (keyed_records b clock 0 logs) = group_records b clock logs k"
proof -
  have "filter (\<lambda>x. key_of b (snd x) = k) (List.enumerate 0 logs) =
        filter (\<lambda>x. resourceKey b (snd x) = Inr k) (List.enumerate 0 logs)"
  proof (rule filter_cong[OF refl])
    fix x assume "x \<in> set (List.enumerate 0 logs)"
    then have "snd x \<in> set logs" by (rule in_set_enumerate_snd)
    with assms have "resourceKey b (snd x) = Inr (key_of b (snd x))" by blast
    then show "(key_of b (snd x) = k) = (resourceKey b (snd x) = Inr k)" by auto
  qed
  then show ?thesis
    by (simp add: records_for_def keyed_records_def group_records_def filter_map comp_def
        case_prod_unfold)
qed

lemma records_for_nonempty: "k \<in> fst ` set krs \<Longrightarrow> records_for k krs \<noteq> []"
  by (auto simp: records_for_def filter_empty_conv)

lemma logsToExportRequest_Inr:
  assumes "logsToExportRequest b clock sink logs = Inr (req, sink')"
  shows "resourceLogs req =
           map (\<lambda>k. resourceLog_of b k (group_records b clock logs k))
             (first_keys (map (key_of b) logs)) \<and>
         (\<forall>lg \<in> set logs. resourceKey b lg = Inr (key_of b lg))"
proof -
  let ?krs = "keyed_records b clock 0 logs"
  from assms obtain reqs where
    loop: "logs_loop b clock 0 logs [] sink = Inr (reqs, sink')" and
    req: "req = \<lparr>resourceLogs = request_loop b reqs []\<rparr>"
    by (auto simp: logsToExportRequest_def split: sum.splits)
  have keys: "\<forall>lg \<in> set logs. resourceKey b lg = Inr (key_of b lg)"
    using logs_loop_Inr[OF loop] by blast
  have reqs: "reqs = map (\<lambda>k. (k, records_for k ?krs)) (first_keys (map (key_of b) logs))"
    using logs_loop_Inr[OF loop] by (simp add: foldl_group_step keyed_records_keys)
  have keep: "filter (\<lambda>(k, rs). rs \<noteq> []) reqs = reqs"
    unfolding reqs
    by (rule filter_True)
       (auto simp: first_keys_set keyed_records_key_set intro!: records_for_nonempty)
  have "resourceLogs req =
          map (\<lambda>k. resourceLog_of b k (group_records b clock logs k))
            (first_keys (map (key_of b) logs))"
    unfolding req
    by (simp add: request_loop_eq keep) (simp add: reqs records_for_keyed[OF keys] comp_def)
  with keys show ?thesis by blast
qed

lemma group_records_nonempty:
  assumes "\<forall>lg \<in> set logs. resourceKey b lg = Inr (key_of b lg)"
    and "k \<in> key_of b ` set logs"
  shows "group_records b clock logs k \<noteq> []"
  using records_for_nonempty[of k "keyed_records b clock 0 logs"] assms(2)
  by (simp add: records_for_keyed[OF assms(1)] keyed_records_key_set)

text \<open>
  What the grouping does, stated on the key the code groups by. When the mapper returns a
  request, every log has a key; the request has one \<open>resourceLogs\<close> entry for each distinct
  key among the logs, in the order in which the keys first occur; the entry of a key holds,
  in input order, the records of exactly the logs with that key; and no entry has an empty
  list of records.
\<close>

lemma logsToExportRequest_groups_by_key:
  assumes "logsToExportRequest b clock sink logs = Inr (req, sink')"
  shows "(\<forall>lg \<in> set logs. resourceKey b lg = Inr (key_of b lg)) \<and>
         resourceLogs req =
           map (\<lambda>k. resourceLog_of b k (group_records b clock logs k))
             (first_keys (map (key_of b) logs)) \<and>
         distinct (first_keys (map (key_of b) logs)) \<and>
         set (first_keys (map (key_of b) logs)) = key_of b ` set logs \<and>
         length (resourceLogs req) = card (key_of b ` set logs) \<and>
         (\<forall>rl \<in> set (resourceLogs req). \<forall>sl \<in> set (scopeLogs rl). logRecords sl \<noteq> [])"
proof -
  let ?ks = "first_keys (map (key_of b) logs)"
  have keys: "\<forall>lg \<in> set logs. resourceKey b lg = Inr (key_of b lg)"
    using logsToExportRequest_Inr[OF assms] by blast
  have eq: "resourceLogs req = map (\<lambda>k. resourceLog_of b k (group_records b clock logs k)) ?ks"
    using logsToExportRequest_Inr[OF assms] by blast
  have d: "distinct ?ks" by (rule first_keys_distinct)
  have s: "set ?ks = key_of b ` set logs" by (simp add: first_keys_set)
  have len: "length (resourceLogs req) = card (key_of b ` set logs)"
    using distinct_card[OF d] by (simp add: eq s)
  have ne: "\<forall>rl \<in> set (resourceLogs req). \<forall>sl \<in> set (scopeLogs rl). logRecords sl \<noteq> []"
    unfolding eq using s group_records_nonempty[OF keys]
    by (auto simp: resourceLog_of_def Let_def case_prod_unfold)
  from keys eq d s len ne show ?thesis by blast
qed

lemmas mapper_eval =
  logsToExportRequest_def log_to_record_def reserved_key_def resourceKey_def
  serviceName_of_def serviceVersion_of_def js_get_def ensure_key_def push_record_def
  resourceLog_of_def js_split_def Number_isInteger_def Let_def

lemma example_request_returned:
  "logsToExportRequest example_build (\<lambda>i. 0) [] example_logs = Inr (example_request, [])"
  by (simp add: example_request_def example_logs_def example_build_def mapper_eval)

lemma example_request_groups:
  "length (resourceLogs example_request) = 2 \<and>
   map (\<lambda>rl. map (\<lambda>sl. map body (logRecords sl)) (scopeLogs rl)) (resourceLogs example_request) =
     [[[KvlistValue [(''k'', IntValue 1)], KvlistValue [(''k'', IntValue 2)]]],
      [[KvlistValue [(''k'', IntValue 3)]]]]"
  by (simp add: example_request_def example_logs_def example_build_def mapper_eval)

text \<open>A service name that is not a string is written as the template literal writes it:
  the number \<open>42\<close> as \<open>"42"\<close>, so that the log is not grouped with one that has no
  service name; a symbol makes the mapper throw.\<close>

lemma logsToExportRequest_number_name:
  "(case logsToExportRequest b clock sink [[(''service.name'', JNumber 42)], []] of
      Inl _ \<Rightarrow> False
    | Inr (req, _) \<Rightarrow>
        map resource_attributes (resourceLogs req) =
          [[(''service.name'', StringValue ''42''),
            (''service.version'', StringValue ''0.0.0-unknown'')],
           [(''service.name'', StringValue ''unknown''),
            (''service.version'', StringValue ''0.0.0-unknown'')]])"
  by (simp add: mapper_eval number_string_def decimal.simps[of 42] decimal.simps[of 4])

lemma logsToExportRequest_symbol_name:
  "logsToExportRequest b clock sink [[(''service.name'', JSymbol ''s'')]] = Inl (TypeError, sink)"
  by (simp add: mapper_eval)

text \<open>
  C1. Two logs whose pairs (service name, service version) differ, one with a newline in the
  name and one with a newline in the version, get the same grouping key; the mapper puts
  both records into one \<open>resourceLogs\<close> entry, whose resource attributes are those of neither.
\<close>

theorem resourceKey_collides_on_newline:
  "resourceKey b [(''service.name'', JString (''a'' @ [newline] @ ''b'')), (''service.version'', JString ''c'')] =
   resourceKey b [(''service.name'', JString ''a''), (''service.version'', JString (''b'' @ [newline] @ ''c''))] \<and>
   resourceKey b [(''service.name'', JString ''a''), (''service.version'', JString (''b'' @ [newline] @ ''c''))] =
     Inr (''a'' @ [newline] @ ''b'' @ [newline] @ ''c'') \<and>
   (''a'' @ [newline] @ ''b'', ''c'') \<noteq> (''a'', ''b'' @ [newline] @ ''c'') \<and>
   (case logsToExportRequest b clock sink
           [[(''service.name'', JString (''a'' @ [newline] @ ''b'')), (''service.version'', JString ''c'')],
            [(''service.name'', JString ''a''), (''service.version'', JString (''b'' @ [newline] @ ''c''))]] of
      Inl _ \<Rightarrow> False
    | Inr (req, _) \<Rightarrow>
        map (\<lambda>rl. (resource_attributes rl, map (\<lambda>sl. length (logRecords sl)) (scopeLogs rl)))
          (resourceLogs req) =
        [([(''service.name'', StringValue ''a''), (''service.version'', StringValue ''b'')], [2])])"
  by (simp add: mapper_eval)

text \<open>
  C4. A batch of three logs with three different pairs of service name and service version,
  none of them missing and all of them strings: the request has two \<open>resourceLogs\<close> entries,
  not three. The first and the third log, whose pairs differ, share the first entry, under
  resource attributes that are the pair of neither: the separator of the grouping key
  occurs in a name and in a version. What the claim says of the order of the records and
  of empty groups holds (lemma \<open>logsToExportRequest_groups_by_key\<close>).
\<close>

theorem logsToExportRequest_merges_distinct_pairs:
  "card ((\<lambda>lg. (js_get lg LogKey_ServiceName, js_get lg LogKey_ServiceVersion)) `
     set [[(''service.name'', JString (''x'' @ [newline] @ ''y'')), (''service.version'', JString ''z''),
           (''k'', JNumber 1)],
          [(''service.name'', JString ''w''), (''service.version'', JString ''1''),
           (''k'', JNumber 2)],
          [(''service.name'', JString ''x''), (''service.version'', JString (''y'' @ [newline] @ ''z'')),
           (''k'', JNumber 3)]]) = 3 \<and>
   (case logsToExportRequest b clock sink
           [[(''service.name'', JString (''x'' @ [newline] @ ''y'')), (''service.version'', JString ''z''),
             (''k'', JNumber 1)],
            [(''service.name'', JString ''w''), (''service.version'', JString ''1''),
             (''k'', JNumber 2)],
            [(''service.name'', JString ''x''), (''service.version'', JString (''y'' @ [newline] @ ''z'')),
             (''k'', JNumber 3)]] of
      Inl _ \<Rightarrow> False
    | Inr (req, _) \<Rightarrow>
        length (resourceLogs req) = 2 \<and>
        map (\<lambda>rl. (resource_attributes rl, map (\<lambda>sl. map body (logRecords sl)) (scopeLogs rl)))
          (resourceLogs req) =
        [([(''service.name'', StringValue ''x''), (''service.version'', StringValue ''y'')],
          [[KvlistValue [(''k'', IntValue 1)], KvlistValue [(''k'', IntValue 3)]]]),
         ([(''service.name'', StringValue ''w''), (''service.version'', StringValue ''1'')],
          [[KvlistValue [(''k'', IntValue 2)]]])])"
  by (simp add: mapper_eval)

text \<open>
  C2. A log with a \<open>null\<close> value under a key that is not reserved: \<open>typeof null\<close> is
  \<open>"object"\<close>, the conversion reaches \<open>Object.keys(null)\<close>, and the \<open>TypeError\<close> leaves
  \<open>logsToExportRequest\<close>; no request is returned, and nothing has been handed to the local
  log function.
\<close>

theorem logsToExportRequest_throws_on_null:
  "js_typeof JNull = ''object'' \<and>
   toAnyValue JNull = Inl TypeError \<and>
   logsToExportRequest b clock sink [[(''a'', JNull)]] = Inl (TypeError, sink)"
  by (simp add: mapper_eval js_typeof_def)

text \<open>For the values that take the \<open>default\<close> branch the mapper does what C2 says: the
  record counts one dropped attribute for each such key, each is reported once with its key
  and value, and none is in the body.\<close>

lemma log_to_record_reports_dropped:
  assumes "log_to_record now lg sink = Inr (r, sink')"
  shows "droppedAttributesCount r = length (List.map_filter (dropped_entry lg) lg) \<and>
         sink' = sink @ List.map_filter (dropped_entry lg) lg \<and>
         body r = KvlistValue (List.map_filter kept_entry lg)"
  using log_to_record_Inr[OF assms] by (simp add: record_of_def)

lemma log_to_record_symbol_example:
  "log_to_record now [(''a'', JSymbol ''s''), (''m'', JString ''hi'')] [] =
     Inr (record_of now [(''a'', JSymbol ''s''), (''m'', JString ''hi'')],
          [UnableToExportAttribute [(''a'', JSymbol ''s''), (''m'', JString ''hi'')] ''a''
             (JSymbol ''s'') (UnknownTypeBug ''symbol'' (JSymbol ''s''))]) \<and>
   droppedAttributesCount (record_of now [(''a'', JSymbol ''s''), (''m'', JString ''hi'')]) = 1 \<and>
   body (record_of now [(''a'', JSymbol ''s''), (''m'', JString ''hi'')]) =
     KvlistValue [(''m'', StringValue ''hi'')]"
  by (simp add: mapper_eval record_of_def kept_entry_def dropped_entry_def)

lemma split_pieces_no_sep: "sep \<notin> set xs \<Longrightarrow> split_pieces sep piece xs = [piece @ xs]"
  by (induction xs arbitrary: piece) auto

lemma split_pieces_first:
  "sep \<notin> set xs \<Longrightarrow>
     split_pieces sep piece (xs @ sep # rest) = (piece @ xs) # split_pieces sep [] rest"
  by (induction xs arbitrary: piece) auto

lemma split_pieces_length: "length (split_pieces sep piece s) = Suc (count_list s sep)"
  by (induction s arbitrary: piece) auto

text \<open>The key of a log is the two strings joined by a newline, so the split of a key has
  two pieces, and the pieces are the two strings when neither holds a newline.\<close>

lemma resourceKey_Inr:
  "resourceKey b lg = Inr key \<Longrightarrow>
     ToString b (serviceName_of lg) = Inr (fst (service_strings b lg)) \<and>
     ToString b (serviceVersion_of lg) = Inr (snd (service_strings b lg)) \<and>
     key = fst (service_strings b lg) @ [newline] @ snd (service_strings b lg)"
  by (auto simp: resourceKey_def service_strings_def split: sum.splits)

lemma js_split_resourceKey:
  "resourceKey b lg = Inr key \<Longrightarrow> length (js_split newline 2 key) = 2"
  by (auto simp: js_split_def split_pieces_length dest!: resourceKey_Inr)

lemma js_split_clean:
  assumes "newline \<notin> set n" "newline \<notin> set v"
  shows "js_split newline 2 (n @ [newline] @ v) = [n, v]"
  using assms by (simp add: js_split_def split_pieces_first split_pieces_no_sep)

lemma resourceLog_of_attributes:
  assumes "newline \<notin> set n" "newline \<notin> set v"
  shows "resourceLog_of b (n @ [newline] @ v) rs =
           \<lparr>resource_attributes =
              [(''service.name'', StringValue n), (''service.version'', StringValue v)],
            scopeLogs =
              [\<lparr>scope = \<lparr>scope_name = PACKAGE_NAME b, scope_version = BUILD_VERSION b\<rparr>,
                logRecords = rs,
                scope_schemaUrl = otel_schema\<rparr>],
            schemaUrl = otel_schema\<rparr>"
  unfolding resourceLog_of_def js_split_clean[OF assms] by simp

text \<open>Where no service name holds a newline, the key determines the pair.\<close>

lemma newline_join_inj:
  assumes "newline \<notin> set n" "newline \<notin> set n'"
    and "n @ [newline] @ v = n' @ [newline] @ v'"
  shows "n = n' \<and> v = v'"
proof -
  have tw: "takeWhile (\<lambda>c. c \<noteq> newline) (m @ newline # w) = m" if "newline \<notin> set m"
    for m :: string and w
    using that by (induction m) auto
  from assms(3) have
    "takeWhile (\<lambda>c. c \<noteq> newline) (n @ newline # v) =
     takeWhile (\<lambda>c. c \<noteq> newline) (n' @ newline # v')"
    by simp
  with assms(1,2) have "n = n'" by (simp add: tw)
  with assms(3) show ?thesis by simp
qed

lemma resourceKey_inj_without_newline:
  assumes "resourceKey b a = Inr key" "resourceKey b c = Inr key"
    and "newline \<notin> set (fst (service_strings b a))"
    and "newline \<notin> set (fst (service_strings b c))"
  shows "service_strings b a = service_strings b c"
  using newline_join_inj[OF assms(3,4), of "snd (service_strings b a)" "snd (service_strings b c)"]
    resourceKey_Inr[OF assms(1)] resourceKey_Inr[OF assms(2)]
  by (simp add: prod_eq_iff)

lemma card_key_of_pairs:
  assumes "\<forall>lg \<in> set logs. resourceKey b lg = Inr (key_of b lg)"
    and "\<forall>lg \<in> set logs. newline \<notin> set (fst (service_strings b lg))"
  shows "card (key_of b ` set logs) = card (service_strings b ` set logs)"
proof -
  let ?join = "\<lambda>p. fst p @ [newline] @ snd p"
  have key: "key_of b lg = ?join (service_strings b lg)" if "lg \<in> set logs" for lg
    using resourceKey_Inr[of b lg "key_of b lg"] assms(1) that by blast
  have img: "key_of b ` set logs = ?join ` (service_strings b ` set logs)"
    unfolding image_image by (rule image_cong[OF refl]) (rule key)
  have "inj_on ?join (service_strings b ` set logs)"
  proof (rule inj_onI)
    fix p q
    assume p: "p \<in> service_strings b ` set logs" and q: "q \<in> service_strings b ` set logs"
      and eq: "?join p = ?join q"
    from p obtain a where a: "a \<in> set logs" "p = service_strings b a" by blast
    from q obtain c where c: "c \<in> set logs" "q = service_strings b c" by blast
    from assms(2) a c have "newline \<notin> set (fst p)" "newline \<notin> set (fst q)" by auto
    from newline_join_inj[OF this eq] show "p = q" by (simp add: prod_eq_iff)
  qed
  then show ?thesis by (simp only: img card_image)
qed

text \<open>
  So, where no service name holds a newline, the request has one entry for each distinct
  pair of service name and service version.
\<close>

lemma logsToExportRequest_one_entry_per_pair:
  assumes "logsToExportRequest b clock sink logs = Inr (req, sink')"
    and "\<forall>lg \<in> set logs. newline \<notin> set (fst (service_strings b lg))"
  shows "length (resourceLogs req) = card (service_strings b ` set logs)"
proof -
  have keys: "\<forall>lg \<in> set logs. resourceKey b lg = Inr (key_of b lg)"
    using logsToExportRequest_Inr[OF assms(1)] by blast
  have "length (resourceLogs req) = card (set (first_keys (map (key_of b) logs)))"
    using distinct_card[OF first_keys_distinct, of "map (key_of b) logs"]
      logsToExportRequest_Inr[OF assms(1)] by simp
  then show ?thesis
    by (simp add: first_keys_set card_key_of_pairs[OF keys assms(2)])
qed

text \<open>A service key that holds a string is written as it is; one that is missing, or holds
  \<open>undefined\<close> or \<open>null\<close>, as the default.\<close>

lemma ToString_serviceName_of:
  assumes "js_get lg LogKey_ServiceName = JString n \<or>
           (js_get lg LogKey_ServiceName = JUndefined \<or> js_get lg LogKey_ServiceName = JNull) \<and>
           n = ''unknown''"
  shows "ToString b (serviceName_of lg) = Inr n"
  using assms by (auto simp: serviceName_of_def)

lemma ToString_serviceVersion_of:
  assumes "js_get lg LogKey_ServiceVersion = JString v \<or>
           (js_get lg LogKey_ServiceVersion = JUndefined \<or> js_get lg LogKey_ServiceVersion = JNull) \<and>
           v = ''0.0.0-unknown''"
  shows "ToString b (serviceVersion_of lg) = Inr v"
  using assms by (auto simp: serviceVersion_of_def)

text \<open>The request made from one log alone.\<close>

lemma logsToExportRequest_single:
  assumes "log_to_record now lg sink = Inr (r, sink')"
    and "ToString b (serviceName_of lg) = Inr n" "ToString b (serviceVersion_of lg) = Inr v"
  shows "logsToExportRequest b (\<lambda>i. now) sink [lg] =
           Inr (\<lparr>resourceLogs = [resourceLog_of b (n @ [newline] @ v) [r]]\<rparr>, sink')"
  using assms
  by (simp add: logsToExportRequest_def resourceKey_def ensure_key_def push_record_def)

text \<open>The entry of a log in the request made from a batch.\<close>

lemma logsToExportRequest_entry_of:
  assumes ret: "logsToExportRequest b clock sink logs = Inr (req, sink')"
    and i: "i < length logs"
    and name: "ToString b (serviceName_of (logs ! i)) = Inr n"
    and version: "ToString b (serviceVersion_of (logs ! i)) = Inr v"
  shows "resourceLog_of b (n @ [newline] @ v) (group_records b clock logs (n @ [newline] @ v))
           \<in> set (resourceLogs req) \<and>
         record_of (clock i) (logs ! i) \<in> set (group_records b clock logs (n @ [newline] @ v))"
proof -
  let ?key = "n @ [newline] @ v"
  have key: "resourceKey b (logs ! i) = Inr ?key"
    using name version by (simp add: resourceKey_def)
  then have "key_of b (logs ! i) = ?key" by (simp add: key_of_def)
  moreover from i have "key_of b (logs ! i) \<in> key_of b ` set logs"
    by (intro imageI nth_mem)
  ultimately have "?key \<in> set (first_keys (map (key_of b) logs))"
    by (simp add: first_keys_set)
  then have "(\<lambda>k. resourceLog_of b k (group_records b clock logs k)) ?key
               \<in> (\<lambda>k. resourceLog_of b k (group_records b clock logs k)) `
                  set (first_keys (map (key_of b) logs))"
    by (rule imageI)
  then have entry:
    "resourceLog_of b ?key (group_records b clock logs ?key) \<in> set (resourceLogs req)"
    using logsToExportRequest_Inr[OF ret] by simp
  have "(i, logs ! i) \<in> set (List.enumerate 0 logs)"
    using i by (simp add: in_set_enumerate_eq)
  with key have
    "(i, logs ! i) \<in> set (filter (\<lambda>(j, lg). resourceKey b lg = Inr ?key) (List.enumerate 0 logs))"
    by simp
  then have "(\<lambda>(j, lg). record_of (clock j) lg) (i, logs ! i)
               \<in> set (group_records b clock logs ?key)"
    unfolding group_records_def set_map by (rule imageI)
  with entry show ?thesis by simp
qed

lemma kept_entry_Some:
  "kept_entry kv = Some e \<longleftrightarrow>
     \<not> reserved_key (fst kv) \<and> (\<exists>ok. toAnyValue (snd kv) = Inr (Ok ok) \<and> e = (fst kv, ok))"
  by (auto simp: kept_entry_def split: sum.splits Result.splits)

lemma set_map_filter: "set (List.map_filter f xs) = {y. \<exists>x \<in> set xs. f x = Some y}"
  by (induction xs) (auto split: option.splits)

lemma map_fst_kept_all:
  assumes "\<forall>kv \<in> set lg. \<not> reserved_key (fst kv) \<longrightarrow> (\<exists>ok. toAnyValue (snd kv) = Inr (Ok ok))"
  shows "map fst (List.map_filter kept_entry lg) = filter (\<lambda>k. \<not> reserved_key k) (map fst lg)"
  using assms
  by (induction lg) (auto simp: kept_entry_def split: option.splits)

text \<open>
  C5, as the claim states it, fails on a log whose only key is \<open>message\<close> with the value
  \<open>undefined\<close>: the key is not reserved, and the body of the record is empty.
\<close>

theorem log_to_record_omits_undefined_message:
  "\<not> reserved_key LogKey_Message \<and>
   log_to_record 0 [(LogKey_Message, JUndefined)] [] =
     Inr (\<lparr>timeUnixNano = JUndefined, observedTimeUnixNano = 0, severityNumber = JUndefined,
           severityText = JUndefined, body = KvlistValue [], droppedAttributesCount = 1,
           traceId = JUndefined, spanId = JUndefined\<rparr>,
          [UnableToExportAttribute [(LogKey_Message, JUndefined)] LogKey_Message JUndefined
             (UnknownTypeBug ''undefined'' JUndefined)])"
  by (simp add: mapper_eval)

text \<open>
  C5, amended. When the mapper builds the record of a log, the five skeleton fields are read
  from the keys \<open>timeUnixNano\<close>, \<open>severityNumber\<close>, \<open>severityText\<close>, \<open>traceId\<close> and
  \<open>spanId\<close>; the body lists, in the log's key order, exactly the keys that are not reserved
  and whose value converts, each with its converted value (\<open>message\<close> among them); none of
  the seven reserved keys is in the body; if every value under a key that is not reserved
  converts, the keys of the body are all those keys; and the values under \<open>service.name\<close>
  and \<open>service.version\<close>, when each is a string without a newline (or is missing, and then
  the default stands for it), are the resource attributes of the entry that holds the
  record: the request the mapper returns for the log alone is that one entry, with the two
  strings as written and the record as its only record, and the request it returns for a
  batch that holds the log has an entry with the two strings as written that holds the
  record.
\<close>

theorem log_to_record_body_and_skeleton:
  assumes "log_to_record now lg sink = Inr (r, sink')"
  shows "timeUnixNano r = js_get lg LogKey_TimestampUnixNano \<and>
         severityNumber r = js_get lg LogKey_SeverityNumber \<and>
         severityText r = js_get lg LogKey_SeverityText \<and>
         traceId r = js_get lg LogKey_TraceId \<and>
         spanId r = js_get lg LogKey_SpanId \<and>
         body r = KvlistValue (List.map_filter kept_entry lg) \<and>
         (\<forall>k \<in> {LogKey_TimestampUnixNano, LogKey_SeverityNumber, LogKey_SeverityText,
                 LogKey_TraceId, LogKey_SpanId, LogKey_ServiceName, LogKey_ServiceVersion}.
            k \<notin> fst ` set (List.map_filter kept_entry lg)) \<and>
         (\<forall>k v ok. (k, v) \<in> set lg \<and> \<not> reserved_key k \<and> toAnyValue v = Inr (Ok ok)
            \<longrightarrow> (k, ok) \<in> set (List.map_filter kept_entry lg)) \<and>
         ((\<forall>kv \<in> set lg. \<not> reserved_key (fst kv) \<longrightarrow> (\<exists>ok. toAnyValue (snd kv) = Inr (Ok ok)))
            \<longrightarrow> map fst (List.map_filter kept_entry lg) =
                 filter (\<lambda>k. \<not> reserved_key k) (map fst lg)) \<and>
         (\<forall>n v.
            (js_get lg LogKey_ServiceName = JString n \<or>
             (js_get lg LogKey_ServiceName = JUndefined \<or> js_get lg LogKey_ServiceName = JNull) \<and>
             n = ''unknown'') \<and>
            (js_get lg LogKey_ServiceVersion = JString v \<or>
             (js_get lg LogKey_ServiceVersion = JUndefined \<or>
              js_get lg LogKey_ServiceVersion = JNull) \<and>
             v = ''0.0.0-unknown'') \<and>
            newline \<notin> set n \<and> newline \<notin> set v
            \<longrightarrow> logsToExportRequest b (\<lambda>i. now) sink [lg] =
                  Inr (\<lparr>resourceLogs =
                          [\<lparr>resource_attributes =
                              [(''service.name'', StringValue n),
                               (''service.version'', StringValue v)],
                            scopeLogs =
                              [\<lparr>scope = \<lparr>scope_name = PACKAGE_NAME b,
                                          scope_version = BUILD_VERSION b\<rparr>,
                                logRecords = [r],
                                scope_schemaUrl = otel_schema\<rparr>],
                            schemaUrl = otel_schema\<rparr>]\<rparr>,
                       sink') \<and>
                (\<forall>clock logs i req s s'.
                   logsToExportRequest b clock s logs = Inr (req, s') \<and>
                   i < length logs \<and> logs ! i = lg \<and> clock i = now
                   \<longrightarrow> (\<exists>rl \<in> set (resourceLogs req).
                          resource_attributes rl =
                            [(''service.name'', StringValue n),
                             (''service.version'', StringValue v)] \<and>
                          (\<exists>sl \<in> set (scopeLogs rl). r \<in> set (logRecords sl)))))"
proof -
  have r: "r = record_of now lg" using log_to_record_Inr[OF assms] by simp
  have skeleton:
    "timeUnixNano r = js_get lg LogKey_TimestampUnixNano \<and>
     severityNumber r = js_get lg LogKey_SeverityNumber \<and>
     severityText r = js_get lg LogKey_SeverityText \<and>
     traceId r = js_get lg LogKey_TraceId \<and>
     spanId r = js_get lg LogKey_SpanId \<and>
     body r = KvlistValue (List.map_filter kept_entry lg)"
    by (simp add: r record_of_def)
  have no_reserved:
    "\<forall>k \<in> {LogKey_TimestampUnixNano, LogKey_SeverityNumber, LogKey_SeverityText,
            LogKey_TraceId, LogKey_SpanId, LogKey_ServiceName, LogKey_ServiceVersion}.
       k \<notin> fst ` set (List.map_filter kept_entry lg)"
    by (auto simp: set_map_filter kept_entry_Some reserved_key_def)
  have kept:
    "\<forall>k v ok. (k, v) \<in> set lg \<and> \<not> reserved_key k \<and> toAnyValue v = Inr (Ok ok)
       \<longrightarrow> (k, ok) \<in> set (List.map_filter kept_entry lg)"
    by (force simp: set_map_filter kept_entry_Some)
  have attributes:
    "logsToExportRequest b (\<lambda>i. now) sink [lg] =
       Inr (\<lparr>resourceLogs =
               [\<lparr>resource_attributes =
                   [(''service.name'', StringValue n), (''service.version'', StringValue v)],
                 scopeLogs =
                   [\<lparr>scope = \<lparr>scope_name = PACKAGE_NAME b, scope_version = BUILD_VERSION b\<rparr>,
                     logRecords = [r],
                     scope_schemaUrl = otel_schema\<rparr>],
                 schemaUrl = otel_schema\<rparr>]\<rparr>,
            sink')"
    if name: "js_get lg LogKey_ServiceName = JString n \<or>
              (js_get lg LogKey_ServiceName = JUndefined \<or> js_get lg LogKey_ServiceName = JNull) \<and>
              n = ''unknown''"
      and version: "js_get lg LogKey_ServiceVersion = JString v \<or>
              (js_get lg LogKey_ServiceVersion = JUndefined \<or>
               js_get lg LogKey_ServiceVersion = JNull) \<and>
              v = ''0.0.0-unknown''"
      and clean: "newline \<notin> set n" "newline \<notin> set v"
    for n v
    unfolding logsToExportRequest_single[OF assms ToString_serviceName_of[OF name]
        ToString_serviceVersion_of[OF version]]
      resourceLog_of_attributes[OF clean]
    by (rule refl)
  have in_batch:
    "\<exists>rl \<in> set (resourceLogs req).
       resource_attributes rl =
         [(''service.name'', StringValue n), (''service.version'', StringValue v)] \<and>
       (\<exists>sl \<in> set (scopeLogs rl). r \<in> set (logRecords sl))"
    if name: "js_get lg LogKey_ServiceName = JString n \<or>
              (js_get lg LogKey_ServiceName = JUndefined \<or> js_get lg LogKey_ServiceName = JNull) \<and>
              n = ''unknown''"
      and version: "js_get lg LogKey_ServiceVersion = JString v \<or>
              (js_get lg LogKey_ServiceVersion = JUndefined \<or>
               js_get lg LogKey_ServiceVersion = JNull) \<and>
              v = ''0.0.0-unknown''"
      and clean: "newline \<notin> set n" "newline \<notin> set v"
      and ret: "logsToExportRequest b clock s logs = Inr (req, s')"
      and i: "i < length logs" "logs ! i = lg" "clock i = now"
    for n v clock logs i req s s'
  proof -
    let ?rs = "group_records b clock logs (n @ [newline] @ v)"
    have name': "ToString b (serviceName_of (logs ! i)) = Inr n"
      unfolding i(2) by (rule ToString_serviceName_of[OF name])
    have version': "ToString b (serviceVersion_of (logs ! i)) = Inr v"
      unfolding i(2) by (rule ToString_serviceVersion_of[OF version])
    from logsToExportRequest_entry_of[OF ret i(1) name' version']
    have entry: "resourceLog_of b (n @ [newline] @ v) ?rs \<in> set (resourceLogs req)"
      and rec: "r \<in> set ?rs"
      by (simp_all add: i r)
    show ?thesis
    proof (rule bexI[OF _ entry], rule conjI)
      show "resource_attributes (resourceLog_of b (n @ [newline] @ v) ?rs) =
              [(''service.name'', StringValue n), (''service.version'', StringValue v)]"
        unfolding resourceLog_of_attributes[OF clean] by simp
      show "\<exists>sl \<in> set (scopeLogs (resourceLog_of b (n @ [newline] @ v) ?rs)).
              r \<in> set (logRecords sl)"
        unfolding resourceLog_of_attributes[OF clean] using rec by simp
    qed
  qed
  have service:
    "\<forall>n v.
       (js_get lg LogKey_ServiceName = JString n \<or>
        (js_get lg LogKey_ServiceName = JUndefined \<or> js_get lg LogKey_ServiceName = JNull) \<and>
        n = ''unknown'') \<and>
       (js_get lg LogKey_ServiceVersion = JString v \<or>
        (js_get lg LogKey_ServiceVersion = JUndefined \<or>
         js_get lg LogKey_ServiceVersion = JNull) \<and>
        v = ''0.0.0-unknown'') \<and>
       newline \<notin> set n \<and> newline \<notin> set v
       \<longrightarrow> logsToExportRequest b (\<lambda>i. now) sink [lg] =
             Inr (\<lparr>resourceLogs =
                     [\<lparr>resource_attributes =
                         [(''service.name'', StringValue n),
                          (''service.version'', StringValue v)],
                       scopeLogs =
                         [\<lparr>scope = \<lparr>scope_name = PACKAGE_NAME b,
                                     scope_version = BUILD_VERSION b\<rparr>,
                           logRecords = [r],
                           scope_schemaUrl = otel_schema\<rparr>],
                       schemaUrl = otel_schema\<rparr>]\<rparr>,
                  sink') \<and>
           (\<forall>clock logs i req s s'.
              logsToExportRequest b clock s logs = Inr (req, s') \<and>
              i < length logs \<and> logs ! i = lg \<and> clock i = now
              \<longrightarrow> (\<exists>rl \<in> set (resourceLogs req).
                     resource_attributes rl =
                       [(''service.name'', StringValue n),
                        (''service.version'', StringValue v)] \<and>
                     (\<exists>sl \<in> set (scopeLogs rl). r \<in> set (logRecords sl))))"
  proof (intro allI impI, elim conjE, rule conjI)
    fix n v
    assume name: "js_get lg LogKey_ServiceName = JString n \<or>
              (js_get lg LogKey_ServiceName = JUndefined \<or> js_get lg LogKey_ServiceName = JNull) \<and>
              n = ''unknown''"
      and version: "js_get lg LogKey_ServiceVersion = JString v \<or>
              (js_get lg LogKey_ServiceVersion = JUndefined \<or>
               js_get lg LogKey_ServiceVersion = JNull) \<and>
              v = ''0.0.0-unknown''"
      and clean: "newline \<notin> set n" "newline \<notin> set v"
    show "logsToExportRequest b (\<lambda>i. now) sink [lg] =
             Inr (\<lparr>resourceLogs =
                     [\<lparr>resource_attributes =
                         [(''service.name'', StringValue n),
                          (''service.version'', StringValue v)],
                       scopeLogs =
                         [\<lparr>scope = \<lparr>scope_name = PACKAGE_NAME b,
                                     scope_version = BUILD_VERSION b\<rparr>,
                           logRecords = [r],
                           scope_schemaUrl = otel_schema\<rparr>],
                       schemaUrl = otel_schema\<rparr>]\<rparr>,
                  sink')"
      by (rule attributes[OF name version clean])
    show "\<forall>clock logs i req s s'.
              logsToExportRequest b clock s logs = Inr (req, s') \<and>
              i < length logs \<and> logs ! i = lg \<and> clock i = now
              \<longrightarrow> (\<exists>rl \<in> set (resourceLogs req).
                     resource_attributes rl =
                       [(''service.name'', StringValue n),
                        (''service.version'', StringValue v)] \<and>
                     (\<exists>sl \<in> set (scopeLogs rl). r \<in> set (logRecords sl)))"
      using in_batch[OF name version clean] by blast
  qed
  from skeleton no_reserved kept map_fst_kept_all[of lg] service
  show ?thesis by (intro conjI) (blast, blast, blast, blast, blast, blast, blast, blast, blast, blast)
qed

theorem log_to_record_body_and_skeleton_witness:
  "log_to_record 0
     [(LogKey_ServiceName, JString ''svc''), (LogKey_ServiceVersion, JString ''2.0''),
      (LogKey_SeverityNumber, JNumber 13), (LogKey_SeverityText, JString ''warn''),
      (LogKey_Message, JString ''hi'')] [] =
     Inr (\<lparr>timeUnixNano = JUndefined, observedTimeUnixNano = 0, severityNumber = JNumber 13,
           severityText = JString ''warn'',
           body = KvlistValue [(LogKey_Message, StringValue ''hi'')],
           droppedAttributesCount = 0, traceId = JUndefined, spanId = JUndefined\<rparr>, []) \<and>
   List.map_filter kept_entry
     [(LogKey_ServiceName, JString ''svc''), (LogKey_ServiceVersion, JString ''2.0''),
      (LogKey_SeverityNumber, JNumber 13), (LogKey_SeverityText, JString ''warn''),
      (LogKey_Message, JString ''hi'')] = [(LogKey_Message, StringValue ''hi'')] \<and>
   logsToExportRequest example_build (\<lambda>i. 0) []
     [[(LogKey_ServiceName, JString ''svc''), (LogKey_ServiceVersion, JString ''2.0''),
       (LogKey_SeverityNumber, JNumber 13), (LogKey_SeverityText, JString ''warn''),
       (LogKey_Message, JString ''hi'')]] =
     Inr (\<lparr>resourceLogs =
             [\<lparr>resource_attributes =
                 [(''service.name'', StringValue ''svc''),
                  (''service.version'', StringValue ''2.0'')],
               scopeLogs =
                 [\<lparr>scope = \<lparr>scope_name = ''@archival/signal'', scope_version = ''unknown''\<rparr>,
                   logRecords =
                     [\<lparr>timeUnixNano = JUndefined, observedTimeUnixNano = 0,
                       severityNumber = JNumber 13, severityText = JString ''warn'',
                       body = KvlistValue [(LogKey_Message, StringValue ''hi'')],
                       droppedAttributesCount = 0, traceId = JUndefined,
                       spanId = JUndefined\<rparr>],
                   scope_schemaUrl = otel_schema\<rparr>],
               schemaUrl = otel_schema\<rparr>]\<rparr>, []) \<and>
   logsToExportRequest example_build (\<lambda>i. 0) [] example_mixed_logs =
     Inr (example_mixed_request, []) \<and>
   map resource_attributes (resourceLogs example_mixed_request) =
     [[(''service.name'', StringValue ''unknown''),
       (''service.version'', StringValue ''0.0.0-unknown'')],
      [(''service.name'', StringValue ''svc''), (''service.version'', StringValue ''2.0'')]] \<and>
   (\<exists>rl \<in> set (resourceLogs example_mixed_request).
      resource_attributes rl =
        [(''service.name'', StringValue ''svc''), (''service.version'', StringValue ''2.0'')] \<and>
      (\<exists>sl \<in> set (scopeLogs rl).
         \<lparr>timeUnixNano = JUndefined, observedTimeUnixNano = 0, severityNumber = JNumber 13,
          severityText = JString ''warn'',
          body = KvlistValue [(LogKey_Message, StringValue ''hi'')],
          droppedAttributesCount = 0, traceId = JUndefined, spanId = JUndefined\<rparr>
           \<in> set (logRecords sl)))"
proof -
  let ?lg = "[(LogKey_ServiceName, JString ''svc''), (LogKey_ServiceVersion, JString ''2.0''),
              (LogKey_SeverityNumber, JNumber 13), (LogKey_SeverityText, JString ''warn''),
              (LogKey_Message, JString ''hi'')]"
  let ?r = "\<lparr>timeUnixNano = JUndefined, observedTimeUnixNano = 0, severityNumber = JNumber 13,
             severityText = JString ''warn'',
             body = KvlistValue [(LogKey_Message, StringValue ''hi'')],
             droppedAttributesCount = 0, traceId = JUndefined, spanId = JUndefined\<rparr>"
  have h: "log_to_record 0 ?lg [] = Inr (?r, [])"
    by (simp add: mapper_eval)
  note t = log_to_record_body_and_skeleton[OF h, of example_build]
  from t have "body ?r = KvlistValue (List.map_filter kept_entry ?lg)" by blast
  then have kept: "List.map_filter kept_entry ?lg = [(LogKey_Message, StringValue ''hi'')]"
    by simp
  have name: "js_get ?lg LogKey_ServiceName = JString ''svc''" by (simp add: js_get_def)
  have version: "js_get ?lg LogKey_ServiceVersion = JString ''2.0''" by (simp add: js_get_def)
  have clean: "newline \<notin> set ''svc''" "newline \<notin> set ''2.0''" by simp_all
  from t name version clean have
    "logsToExportRequest example_build (\<lambda>i. 0) [] [?lg] =
       Inr (\<lparr>resourceLogs =
               [\<lparr>resource_attributes =
                   [(''service.name'', StringValue ''svc''),
                    (''service.version'', StringValue ''2.0'')],
                 scopeLogs =
                   [\<lparr>scope = \<lparr>scope_name = PACKAGE_NAME example_build,
                               scope_version = BUILD_VERSION example_build\<rparr>,
                     logRecords = [?r],
                     scope_schemaUrl = otel_schema\<rparr>],
                 schemaUrl = otel_schema\<rparr>]\<rparr>,
            [])"
    by blast
  then have req:
    "logsToExportRequest example_build (\<lambda>i. 0) [] [?lg] =
       Inr (\<lparr>resourceLogs =
               [\<lparr>resource_attributes =
                   [(''service.name'', StringValue ''svc''),
                    (''service.version'', StringValue ''2.0'')],
                 scopeLogs =
                   [\<lparr>scope = \<lparr>scope_name = ''@archival/signal'', scope_version = ''unknown''\<rparr>,
                     logRecords = [?r],
                     scope_schemaUrl = otel_schema\<rparr>],
                 schemaUrl = otel_schema\<rparr>]\<rparr>,
            [])"
    by (simp add: example_build_def)
  have ret: "logsToExportRequest example_build (\<lambda>i. 0) [] example_mixed_logs =
               Inr (example_mixed_request, [])"
    by (simp add: example_mixed_request_def example_mixed_logs_def example_build_def mapper_eval)
  have attrs: "map resource_attributes (resourceLogs example_mixed_request) =
     [[(''service.name'', StringValue ''unknown''),
       (''service.version'', StringValue ''0.0.0-unknown'')],
      [(''service.name'', StringValue ''svc''), (''service.version'', StringValue ''2.0'')]]"
    by (simp add: example_mixed_request_def example_mixed_logs_def example_build_def mapper_eval)
  from t name version clean have
    "\<forall>clock logs i req s s'.
       logsToExportRequest example_build clock s logs = Inr (req, s') \<and>
       i < length logs \<and> logs ! i = ?lg \<and> clock i = 0
       \<longrightarrow> (\<exists>rl \<in> set (resourceLogs req).
              resource_attributes rl =
                [(''service.name'', StringValue ''svc''),
                 (''service.version'', StringValue ''2.0'')] \<and>
              (\<exists>sl \<in> set (scopeLogs rl). ?r \<in> set (logRecords sl)))"
    by blast
  then have
    "logsToExportRequest example_build (\<lambda>i. 0) [] example_mixed_logs =
       Inr (example_mixed_request, []) \<and>
     Suc 0 < length example_mixed_logs \<and> example_mixed_logs ! Suc 0 = ?lg \<and>
     (\<lambda>i. 0) (Suc 0) = (0::int)
     \<longrightarrow> (\<exists>rl \<in> set (resourceLogs example_mixed_request).
            resource_attributes rl =
              [(''service.name'', StringValue ''svc''),
               (''service.version'', StringValue ''2.0'')] \<and>
            (\<exists>sl \<in> set (scopeLogs rl). ?r \<in> set (logRecords sl)))"
    by (elim allE)
  moreover have "Suc 0 < length example_mixed_logs" "example_mixed_logs ! Suc 0 = ?lg"
    by (simp_all add: example_mixed_logs_def)
  ultimately have batch:
    "\<exists>rl \<in> set (resourceLogs example_mixed_request).
       resource_attributes rl =
         [(''service.name'', StringValue ''svc''), (''service.version'', StringValue ''2.0'')] \<and>
       (\<exists>sl \<in> set (scopeLogs rl). ?r \<in> set (logRecords sl))"
    using ret by simp
  from h kept req ret attrs batch show ?thesis by (intro conjI)
qed

section \<open>Properties of the exporter\<close>












lemma readings_append:
  "received_logs (xs @ ys) = received_logs xs @ received_logs ys"
  "flushed_batches (xs @ ys) = flushed_batches xs @ flushed_batches ys"
  "posted_requests (xs @ ys) = posted_requests xs @ posted_requests ys"
  "queue_sends (xs @ ys) = queue_sends xs @ queue_sends ys"
  by (simp_all add: received_logs_def flushed_batches_def posted_requests_def queue_sends_def)

lemma readings_Cons:
  "received_logs (e # es) =
     (case e of QueueReceive (RecvOk item) \<Rightarrow> [item] | _ \<Rightarrow> []) @ received_logs es"
  "flushed_batches (e # es) =
     (case e of ExportBatchCalled batch \<Rightarrow> [batch] | _ \<Rightarrow> []) @ flushed_batches es"
  "posted_requests (e # es) =
     (case e of Posted request \<Rightarrow> [request] | _ \<Rightarrow> []) @ posted_requests es"
  "queue_sends (e # es) =
     (case e of QueueSend message \<Rightarrow> [message] | _ \<Rightarrow> []) @ queue_sends es"
  by (simp_all add: received_logs_def flushed_batches_def posted_requests_def queue_sends_def)

lemma readings_Nil:
  "received_logs [] = []" "flushed_batches [] = []" "posted_requests [] = []" "queue_sends [] = []"
  by (simp_all add: received_logs_def flushed_batches_def posted_requests_def queue_sends_def)

lemma readings_Logged:
  "received_logs (map Logged sink) = []" "flushed_batches (map Logged sink) = []"
  "posted_requests (map Logged sink) = []" "queue_sends (map Logged sink) = []"
  by (induction sink) (simp_all add: readings_Cons readings_Nil)

lemmas readings = readings_append readings_Cons readings_Nil readings_Logged

lemma exportBatch_readings:
  assumes "exportBatch b clock out batch = (r, effs)"
  shows "received_logs effs = []" "flushed_batches effs = [batch]" "queue_sends effs = []"
    "posted_requests effs =
       (case logsToExportRequest b clock [] batch of Inl _ \<Rightarrow> [] | Inr (request, _) \<Rightarrow> [request])"
  using assms by (auto simp: exportBatch_def readings split: sum.splits)

lemma loop_iteration_continue_readings:
  assumes "loop_iteration b opts ctx t batch lastSend = (Continue batch1 lastSend1, effs)"
  shows "queue_sends effs = []"
    and "batch @ received_logs effs = concat (flushed_batches effs) @ batch1"
    and "flushed_batches effs \<noteq> [] \<longrightarrow> batch1 = []"
  using assms
  by (auto simp: loop_iteration_def exportBatch_def Let_def readings
           split: if_splits prod.splits option.splits recv_result.splits sum.splits)

lemma loop_iteration_exit_readings:
  assumes "loop_iteration b opts ctx t batch lastSend = (Exit ex, effs)"
  shows "queue_sends effs = []"
    and "received_logs effs = []"
    and "(\<forall>e. ex \<noteq> Thrown e) \<longrightarrow> flushed_batches effs = []"
    and "flushed_batches effs = [] \<or> flushed_batches effs = [batch]"
  using assms
  by (auto simp: loop_iteration_def exportBatch_def Let_def readings
           split: if_splits prod.splits option.splits recv_result.splits sum.splits)

lemma export_loop_readings:
  assumes "export_loop b opts ctx ticks batch lastSend = (ex, batch', effs)"
  shows "queue_sends effs = [] \<and>
         (\<exists>held. batch @ received_logs effs = concat (flushed_batches effs) @ held) \<and>
         ((\<forall>e. ex \<noteq> Thrown e) \<longrightarrow>
            batch @ received_logs effs = concat (flushed_batches effs) @ batch')"
  using assms
proof (induction ticks arbitrary: batch lastSend ex batch' effs)
  case Nil
  then show ?case by (auto simp: readings)
next
  case (Cons t ts)
  obtain res e1 where it: "loop_iteration b opts ctx t batch lastSend = (res, e1)"
    by (cases "loop_iteration b opts ctx t batch lastSend")
  show ?case
  proof (cases res)
    case (Exit x)
    with Cons.prems it have eq: "ex = x" "effs = e1" "batch' = batch" by simp_all
    from it Exit have i: "loop_iteration b opts ctx t batch lastSend = (Exit x, e1)" by simp
    note r = loop_iteration_exit_readings[OF i]
    have held: "\<exists>held. batch @ received_logs e1 = concat (flushed_batches e1) @ held"
      using r(2) r(4) by auto
    from r(1) r(2) r(3) held show ?thesis unfolding eq by simp
  next
    case (Continue batch1 lastSend1)
    obtain ex2 b2 rest where
      l: "export_loop b opts ctx ts batch1 lastSend1 = (ex2, b2, rest)"
      by (cases "export_loop b opts ctx ts batch1 lastSend1")
    with Cons.prems it Continue have eq: "ex = ex2" "effs = e1 @ rest" "batch' = b2" by simp_all
    from it Continue have
      i: "loop_iteration b opts ctx t batch lastSend = (Continue batch1 lastSend1, e1)" by simp
    note r = loop_iteration_continue_readings[OF i]
    note IH = Cons.IH[OF l]
    from IH obtain held where
      h: "batch1 @ received_logs rest = concat (flushed_batches rest) @ held" by blast
    have step: "batch @ received_logs (e1 @ rest) =
                concat (flushed_batches e1) @ batch1 @ received_logs rest"
      using r(2) by (simp add: readings)
    have held': "\<exists>held. batch @ received_logs (e1 @ rest) =
                        concat (flushed_batches (e1 @ rest)) @ held"
      using step h by (simp add: readings)
    have exact: "batch @ received_logs (e1 @ rest) = concat (flushed_batches (e1 @ rest)) @ b2"
      if "\<forall>e. ex2 \<noteq> Thrown e"
      using step IH that by (simp add: readings)
    from r(1) IH held' exact show ?thesis unfolding eq by (simp add: readings)
  qed
qed

lemma export_readings:
  assumes "export b opts ctx start ticks final_clock final_http = (Resolved, effs)"
  shows "queue_sends effs = [] \<and> concat (flushed_batches effs) = received_logs effs"
proof -
  obtain ex batch' e1 where l: "export_loop b opts ctx ticks [] start = (ex, batch', e1)"
    by (cases "export_loop b opts ctx ticks [] start")
  note r = export_loop_readings[OF l]
  from assms l have normal: "\<forall>e. ex \<noteq> Thrown e"
    by (auto simp: export_def)
  with r have all: "received_logs e1 = concat (flushed_batches e1) @ batch'" by simp
  show ?thesis
  proof (cases "length batch' > 0")
    case True
    obtain r2 e2 where x: "exportBatch b final_clock final_http batch' = (r2, e2)"
      by (cases "exportBatch b final_clock final_http batch'")
    from assms l True x have "effs = e1 @ e2 @ [Logged StoppingExporter]"
      by (cases ex; cases r2) (auto simp: export_def)
    with r all exportBatch_readings[OF x] show ?thesis by (simp add: readings)
  next
    case False
    with assms l have "effs = e1 @ [Logged StoppingExporter]"
      by (cases ex) (auto simp: export_def)
    with r all False show ?thesis by (simp add: readings)
  qed
qed

text \<open>
  C6. \<open>#exportBatch\<close> posts the mapped batch once, whatever the way the request ends, and
  sends nothing to a queue. In the loop, the pass that exports goes on with an empty batch;
  no effect of the loop is a send to a queue; and the batches handed to \<open>#exportBatch\<close>,
  one after the other, are the logs received so far, each once and in order, up to the batch
  still held. When \<open>export\<close> resolves, the batches exported are exactly the logs received:
  no log is in two batches, whether or not the request of its batch failed.
\<close>

theorem exportBatch_drops_the_batch:
  "posted_requests (snd (exportBatch b clock out batch)) =
     (case logsToExportRequest b clock [] batch of Inl _ \<Rightarrow> [] | Inr (request, _) \<Rightarrow> [request]) \<and>
   queue_sends (snd (exportBatch b clock out batch)) = [] \<and>
   flushed_batches (snd (exportBatch b clock out batch)) = [batch] \<and>
   (\<forall>batch1 lastSend1 effs.
      loop_iteration b opts ctx t batch lastSend = (Continue batch1 lastSend1, effs) \<and>
      flushed_batches effs \<noteq> [] \<longrightarrow> batch1 = []) \<and>
   (\<forall>ex batch' effs.
      export_loop b opts ctx ticks batch lastSend = (ex, batch', effs) \<longrightarrow>
        queue_sends effs = [] \<and>
        (\<exists>held. batch @ received_logs effs = concat (flushed_batches effs) @ held) \<and>
        ((\<forall>e. ex \<noteq> Thrown e) \<longrightarrow>
           batch @ received_logs effs = concat (flushed_batches effs) @ batch')) \<and>
   (\<forall>effs.
      export b opts ctx start ticks final_clock final_http = (Resolved, effs) \<longrightarrow>
        queue_sends effs = [] \<and> concat (flushed_batches effs) = received_logs effs)"
proof -
  obtain r effs0 where x: "exportBatch b clock out batch = (r, effs0)"
    by (cases "exportBatch b clock out batch")
  have batch_level:
    "posted_requests (snd (exportBatch b clock out batch)) =
       (case logsToExportRequest b clock [] batch of Inl _ \<Rightarrow> [] | Inr (request, _) \<Rightarrow> [request])"
    "queue_sends (snd (exportBatch b clock out batch)) = []"
    "flushed_batches (snd (exportBatch b clock out batch)) = [batch]"
    using exportBatch_readings[OF x] by (simp_all add: x)
  have reset: "batch1 = []"
    if "loop_iteration b opts ctx t batch lastSend = (Continue batch1 lastSend1, effs) \<and>
        flushed_batches effs \<noteq> []" for batch1 lastSend1 effs
    using loop_iteration_continue_readings(3)[of b opts ctx t batch lastSend batch1 lastSend1 effs]
      that by blast
  from batch_level reset export_loop_readings[of b opts ctx ticks batch lastSend]
    export_readings[of b opts ctx start ticks final_clock final_http]
  show ?thesis by blast
qed

lemmas exporter_eval =
  export_def loop_iteration_def exportBatch_def outcome_entry_def eager_options_def
  receive_tick_def stop_tick_def idle_tick_def example_build_def readings

lemma failing_run_result: "fst failing_run = Resolved"
  by (simp add: failing_run_def exporter_eval mapper_eval)

lemma failing_run_received:
  "received_logs (snd failing_run) = [[(''k'', JNumber 1)], [(''k'', JNumber 2)]]"
  by (simp add: failing_run_def exporter_eval mapper_eval)

lemma failing_run_flushed:
  "flushed_batches (snd failing_run) = [[[(''k'', JNumber 1)]], [[(''k'', JNumber 2)]]]"
  by (simp add: failing_run_def exporter_eval mapper_eval)

theorem exportBatch_drops_the_batch_witness:
  "fst failing_run = Resolved \<and>
   received_logs (snd failing_run) = [[(''k'', JNumber 1)], [(''k'', JNumber 2)]] \<and>
   flushed_batches (snd failing_run) = [[[(''k'', JNumber 1)]], [[(''k'', JNumber 2)]]] \<and>
   concat (flushed_batches (snd failing_run)) = received_logs (snd failing_run) \<and>
   queue_sends (snd failing_run) = []"
proof -
  have run: "export example_build eager_options 7 0
               [receive_tick [(''k'', JNumber 1)], idle_tick, receive_tick [(''k'', JNumber 2)],
                idle_tick, stop_tick]
               (\<lambda>i. 0) HttpThrowsFetchError = (Resolved, snd failing_run)"
    using failing_run_result by (simp add: failing_run_def prod_eq_iff)
  from exportBatch_drops_the_batch
         [of example_build "\<lambda>i. 0" HttpThrowsFetchError "[]" eager_options 7 idle_tick 0
             "[receive_tick [(''k'', JNumber 1)], idle_tick, receive_tick [(''k'', JNumber 2)],
               idle_tick, stop_tick]" 0 "\<lambda>i. 0" HttpThrowsFetchError]
    run
  have "queue_sends (snd failing_run) = [] \<and>
        concat (flushed_batches (snd failing_run)) = received_logs (snd failing_run)"
    by blast
  with failing_run_result failing_run_received failing_run_flushed show ?thesis by simp
qed

section \<open>Properties of the dispatch handler\<close>

declare send_loop.simps [simp del]

lemma send_loop_at_4:
  "send_loop send_result fetchRequest 4 =
     (case send_result 4 of
        None \<Rightarrow> (SendLoopBreak, 4, [Logged SendingFetchRequest, QueueSend fetchRequest])
      | Some err \<Rightarrow>
          (SendLoopThrow err, 4,
           [Logged SendingFetchRequest, QueueSend fetchRequest, Logged (UnableToPublish 5)]))"
  by (subst send_loop.simps) (simp split: option.splits)

lemma send_loop_at_3:
  "send_loop send_result fetchRequest 3 =
     (case send_result 3 of
        None \<Rightarrow> (SendLoopBreak, 3, [Logged SendingFetchRequest, QueueSend fetchRequest])
      | Some err \<Rightarrow>
          (case send_loop send_result fetchRequest 4 of
             (end, attempt', rest) \<Rightarrow>
               (end, attempt',
                [Logged SendingFetchRequest, QueueSend fetchRequest,
                 Logged (ErrorWhilePublishing 4), Sleep 500] @ rest)))"
  by (subst send_loop.simps) (simp split: option.splits)

lemma send_loop_at_2:
  "send_loop send_result fetchRequest 2 =
     (case send_result 2 of
        None \<Rightarrow> (SendLoopBreak, 2, [Logged SendingFetchRequest, QueueSend fetchRequest])
      | Some err \<Rightarrow>
          (case send_loop send_result fetchRequest 3 of
             (end, attempt', rest) \<Rightarrow>
               (end, attempt',
                [Logged SendingFetchRequest, QueueSend fetchRequest,
                 Logged (ErrorWhilePublishing 3), Sleep 500] @ rest)))"
  by (subst send_loop.simps) (simp split: option.splits)

lemma send_loop_at_1:
  "send_loop send_result fetchRequest (Suc 0) =
     (case send_result (Suc 0) of
        None \<Rightarrow> (SendLoopBreak, (Suc 0), [Logged SendingFetchRequest, QueueSend fetchRequest])
      | Some err \<Rightarrow>
          (case send_loop send_result fetchRequest 2 of
             (end, attempt', rest) \<Rightarrow>
               (end, attempt',
                [Logged SendingFetchRequest, QueueSend fetchRequest,
                 Logged (ErrorWhilePublishing 2), Sleep 500] @ rest)))"
  by (subst send_loop.simps) (simp split: option.splits add: numeral_2_eq_2)

lemma send_loop_at_0:
  "send_loop send_result fetchRequest 0 =
     (case send_result 0 of
        None \<Rightarrow> (SendLoopBreak, 0, [Logged SendingFetchRequest, QueueSend fetchRequest])
      | Some err \<Rightarrow>
          (case send_loop send_result fetchRequest (Suc 0) of
             (end, attempt', rest) \<Rightarrow>
               (end, attempt',
                [Logged SendingFetchRequest, QueueSend fetchRequest,
                 Logged (ErrorWhilePublishing (Suc 0)), Sleep 500] @ rest)))"
  by (subst send_loop.simps) (simp split: option.splits)

lemmas send_loop_unrolled =
  send_loop_at_0 send_loop_at_1 send_loop_at_2 send_loop_at_3 send_loop_at_4

lemma attempts_pattern_one: "attempts_pattern (Suc 0) r = [QueueSend r]"
  by (simp add: attempts_pattern_def)

lemma attempts_pattern_more:
  "0 < m \<Longrightarrow> attempts_pattern (Suc m) r = QueueSend r # Sleep 500 # attempts_pattern m r"
  by (cases m) (simp_all add: attempts_pattern_def)

lemma sends_and_sleeps_sent:
  "sends_and_sleeps ([Logged SendingFetchRequest, QueueSend r] @ xs) =
     QueueSend r # sends_and_sleeps xs"
  "sends_and_sleeps (Logged entry # xs) = sends_and_sleeps xs"
  "sends_and_sleeps (Sleep ms # xs) = Sleep ms # sends_and_sleeps xs"
  "sends_and_sleeps [] = []"
  by (simp_all add: sends_and_sleeps_def)

lemma send_loop_result:
  "attempt < 5 \<Longrightarrow> send_loop send_result fetchRequest attempt = (e, a, effs) \<Longrightarrow>
   (case find (\<lambda>i. send_result i = None) [attempt..<5] of
      None \<Rightarrow> (\<exists>err. send_result 4 = Some err \<and> e = SendLoopThrow err) \<and>
              sends_and_sleeps effs = attempts_pattern (5 - attempt) fetchRequest
    | Some k \<Rightarrow> e = SendLoopBreak \<and> a = k \<and>
               sends_and_sleeps effs = attempts_pattern (Suc k - attempt) fetchRequest)"
proof (induction send_result fetchRequest attempt arbitrary: e a effs rule: send_loop.induct)
  case (1 send_result fetchRequest attempt)
  note lt = \<open>attempt < 5\<close>
  note run = \<open>send_loop send_result fetchRequest attempt = (e, a, effs)\<close>
  from lt have upt: "[attempt..<5] = attempt # [Suc attempt..<5]" by (rule upt_conv_Cons)
  show ?case
  proof (cases "send_result attempt")
    case None
    with run lt have "e = SendLoopBreak" "a = attempt"
      "effs = [Logged SendingFetchRequest, QueueSend fetchRequest]"
      by (simp_all add: send_loop.simps[of send_result fetchRequest attempt])
    with None show ?thesis
      by (simp add: upt sends_and_sleeps_def attempts_pattern_one)
  next
    case (Some err)
    show ?thesis
    proof (cases "attempt = 4")
      case True
      have "e = SendLoopThrow err"
        "effs = [Logged SendingFetchRequest, QueueSend fetchRequest, Logged (UnableToPublish 5)]"
        using run Some unfolding True
        by (simp_all add: send_loop.simps[of send_result fetchRequest 4])
      with True Some show ?thesis
        by (simp add: sends_and_sleeps_def attempts_pattern_def)
    next
      case False
      with lt have lt': "attempt + 1 < 5" by simp
      obtain e2 a2 rest where
        r: "send_loop send_result fetchRequest (attempt + 1) = (e2, a2, rest)"
        by (cases "send_loop send_result fetchRequest (attempt + 1)")
      from run Some False lt r have eq: "e = e2" "a = a2"
        "effs = [Logged SendingFetchRequest, QueueSend fetchRequest] @
                [Logged (ErrorWhilePublishing (attempt + 1)), Sleep 500] @ rest"
        by (simp_all add: send_loop.simps[of send_result fetchRequest attempt])
      have ss: "sends_and_sleeps effs = QueueSend fetchRequest # Sleep 500 # sends_and_sleeps rest"
        unfolding eq by (simp add: sends_and_sleeps_def)
      note IH = "1.IH"[OF lt refl Some False lt' r]
      show ?thesis
      proof (cases "find (\<lambda>i. send_result i = None) [Suc attempt..<5]")
        case None
        with IH have i: "\<exists>err. send_result 4 = Some err \<and> e2 = SendLoopThrow err"
          "sends_and_sleeps rest = attempts_pattern (5 - (attempt + 1)) fetchRequest"
          by simp_all
        from lt' have "5 - attempt = Suc (5 - (attempt + 1))" "0 < 5 - (attempt + 1)" by simp_all
        with i ss have "sends_and_sleeps effs = attempts_pattern (5 - attempt) fetchRequest"
          by (simp add: attempts_pattern_more)
        with None Some i(1) eq(1) show ?thesis by (simp add: upt)
      next
        case (Some k)
        with IH have i: "e2 = SendLoopBreak" "a2 = k"
          "sends_and_sleeps rest = attempts_pattern (Suc k - (attempt + 1)) fetchRequest"
          by simp_all
        from Some have "k \<in> set [Suc attempt..<5]" by (auto simp: find_Some_iff)
        then have "Suc k - attempt = Suc (Suc k - (attempt + 1))" "0 < Suc k - (attempt + 1)"
          by auto
        with i ss have "sends_and_sleeps effs = attempts_pattern (Suc k - attempt) fetchRequest"
          by (simp add: attempts_pattern_more)
        with Some \<open>send_result attempt = Some err\<close> i eq show ?thesis by (simp add: upt)
      qed
    qed
  qed
qed

lemma send_loop_from_0:
  "send_loop send_result fetchRequest 0 = (e, a, effs) \<Longrightarrow>
   (case find (\<lambda>i. send_result i = None) [0..<5] of
      None \<Rightarrow> (\<exists>err. send_result 4 = Some err \<and> e = SendLoopThrow err) \<and>
              sends_and_sleeps effs = attempts_pattern 5 fetchRequest
    | Some k \<Rightarrow> e = SendLoopBreak \<and> a = k \<and>
               sends_and_sleeps effs = attempts_pattern (Suc k) fetchRequest)"
  using send_loop_result[of 0 send_result fetchRequest e a effs]
  by (simp split: option.splits)

lemma queue_sends_of_sends_and_sleeps:
  "length (queue_sends xs) = length (queue_sends (sends_and_sleeps xs))"
  by (induction xs) (auto simp: queue_sends_def sends_and_sleeps_def split: effect.splits)

lemma queue_sends_attempts_pattern: "length (queue_sends (attempts_pattern n r)) = Suc (n - 1)"
proof -
  have "length (queue_sends (concat (replicate j [Sleep 500, QueueSend r]))) = j" for j
    by (induction j) (auto simp: queue_sends_def)
  then show ?thesis by (simp add: attempts_pattern_def queue_sends_def)
qed

text \<open>
  C7. For a URL that classifies to a content type, let \<open>k\<close> be the first of the attempts
  0 to 4 at which the queue's send returns no error. If there is one, the handler has sent
  \<open>Suc k\<close> times, with a wait of 500 ms between consecutive sends and none after the last,
  and answers 200. If there is none, the handler has sent 5 times, with the same waits, and
  throws an HTTP exception with status 500 whose cause is the error of the fifth send. The
  handler never sends more than 5 times.
\<close>

theorem dispatchPostHandler_retries_five_times:
  assumes "inspectUrl url = Some contentType"
  shows "(case find (\<lambda>i. send_result i = None) [0..<5] of
            None \<Rightarrow>
              (\<exists>err. send_result 4 = Some err \<and>
                     fst (dispatchPostHandler inspectUrl send_result url) =
                       HTTPException 500 (QueueFailed err)) \<and>
              sends_and_sleeps (snd (dispatchPostHandler inspectUrl send_result url)) =
                attempts_pattern 5 (fetchRequest_of url contentType)
          | Some k \<Rightarrow>
              fst (dispatchPostHandler inspectUrl send_result url) = Response 200 \<and>
              sends_and_sleeps (snd (dispatchPostHandler inspectUrl send_result url)) =
                attempts_pattern (Suc k) (fetchRequest_of url contentType)) \<and>
         length (queue_sends (snd (dispatchPostHandler inspectUrl send_result url))) \<le> 5"
proof -
  let ?req = "fetchRequest_of url contentType"
  obtain e a effs where l: "send_loop send_result ?req 0 = (e, a, effs)"
    by (cases "send_loop send_result ?req 0")
  note f = send_loop_from_0[OF l]
  show ?thesis
  proof (cases "find (\<lambda>i. send_result i = None) [0..<5]")
    case None
    with f obtain err where
      e: "send_result 4 = Some err" "e = SendLoopThrow err" and
      p: "sends_and_sleeps effs = attempts_pattern 5 ?req"
      by auto
    have d: "dispatchPostHandler inspectUrl send_result url =
             (HTTPException 500 (QueueFailed err), effs)"
      using assms l e by (simp add: dispatchPostHandler_def fetchRequest_of_def)
    have "length (queue_sends effs) \<le> 5"
      using queue_sends_of_sends_and_sleeps[of effs] queue_sends_attempts_pattern[of 5 ?req]
      by (simp add: p)
    with None e p d show ?thesis by simp
  next
    case (Some k)
    with f have e: "e = SendLoopBreak" "a = k" and
      p: "sends_and_sleeps effs = attempts_pattern (Suc k) ?req"
      by auto
    from Some have k: "k < 5" by (auto simp: find_Some_iff)
    have d: "dispatchPostHandler inspectUrl send_result url =
             (Response 200, effs @ [Logged (Published (Suc k))])"
      using assms l e by (simp add: dispatchPostHandler_def fetchRequest_of_def)
    have ss: "sends_and_sleeps (effs @ [Logged (Published (Suc k))]) = sends_and_sleeps effs"
      by (simp add: sends_and_sleeps_def)
    have "length (queue_sends (effs @ [Logged (Published (Suc k))])) \<le> 5"
      using queue_sends_of_sends_and_sleeps[of "effs @ [Logged (Published (Suc k))]"]
        queue_sends_attempts_pattern[of "Suc k" ?req] k
      by (simp add: ss p)
    with Some p d ss show ?thesis by simp
  qed
qed

theorem dispatchPostHandler_retries_five_times_witness:
  "dispatchPostHandler (\<lambda>u. Some ''text/html'') (\<lambda>n. Some ''QueueUnavailable'') ''http://a'' =
     (HTTPException 500 (QueueFailed ''QueueUnavailable''),
      [Logged SendingFetchRequest, QueueSend (fetchRequest_of ''http://a'' ''text/html''),
       Logged (ErrorWhilePublishing 1), Sleep 500,
       Logged SendingFetchRequest, QueueSend (fetchRequest_of ''http://a'' ''text/html''),
       Logged (ErrorWhilePublishing 2), Sleep 500,
       Logged SendingFetchRequest, QueueSend (fetchRequest_of ''http://a'' ''text/html''),
       Logged (ErrorWhilePublishing 3), Sleep 500,
       Logged SendingFetchRequest, QueueSend (fetchRequest_of ''http://a'' ''text/html''),
       Logged (ErrorWhilePublishing 4), Sleep 500,
       Logged SendingFetchRequest, QueueSend (fetchRequest_of ''http://a'' ''text/html''),
       Logged (UnableToPublish 5)]) \<and>
   fst (dispatchPostHandler (\<lambda>u. Some ''text/html'')
          (\<lambda>n. if n < 2 then Some ''QueueUnavailable'' else None) ''http://a'') = Response 200 \<and>
   sends_and_sleeps (snd (dispatchPostHandler (\<lambda>u. Some ''text/html'')
          (\<lambda>n. if n < 2 then Some ''QueueUnavailable'' else None) ''http://a'')) =
     attempts_pattern (Suc 2) (fetchRequest_of ''http://a'' ''text/html'')"
proof -
  have run: "dispatchPostHandler (\<lambda>u. Some ''text/html'') (\<lambda>n. Some ''QueueUnavailable'') ''http://a'' =
     (HTTPException 500 (QueueFailed ''QueueUnavailable''),
      [Logged SendingFetchRequest, QueueSend (fetchRequest_of ''http://a'' ''text/html''),
       Logged (ErrorWhilePublishing 1), Sleep 500,
       Logged SendingFetchRequest, QueueSend (fetchRequest_of ''http://a'' ''text/html''),
       Logged (ErrorWhilePublishing 2), Sleep 500,
       Logged SendingFetchRequest, QueueSend (fetchRequest_of ''http://a'' ''text/html''),
       Logged (ErrorWhilePublishing 3), Sleep 500,
       Logged SendingFetchRequest, QueueSend (fetchRequest_of ''http://a'' ''text/html''),
       Logged (ErrorWhilePublishing 4), Sleep 500,
       Logged SendingFetchRequest, QueueSend (fetchRequest_of ''http://a'' ''text/html''),
       Logged (UnableToPublish 5)])"
    by (simp add: dispatchPostHandler_def fetchRequest_of_def send_loop_unrolled Let_def)
  have found: "find (\<lambda>i. (if i < 2 then Some ''QueueUnavailable'' else None) = None) [0..<5] = Some 2"
    by code_simp
  from dispatchPostHandler_retries_five_times
         [of "\<lambda>u. Some ''text/html''" "''http://a''" "''text/html''"
             "\<lambda>n. if n < 2 then Some ''QueueUnavailable'' else None"]
  have "fst (dispatchPostHandler (\<lambda>u. Some ''text/html'')
          (\<lambda>n. if n < 2 then Some ''QueueUnavailable'' else None) ''http://a'') = Response 200 \<and>
        sends_and_sleeps (snd (dispatchPostHandler (\<lambda>u. Some ''text/html'')
          (\<lambda>n. if n < 2 then Some ''QueueUnavailable'' else None) ''http://a'')) =
          attempts_pattern (Suc 2) (fetchRequest_of ''http://a'' ''text/html'')"
    by (simp add: found)
  with run show ?thesis by (rule conjI)
qed

section \<open>Properties of cancellation contexts\<close>

lemma fold_invariant: "(\<And>x s. P s \<Longrightarrow> P (f x s)) \<Longrightarrow> P s \<Longrightarrow> P (fold f xs s)"
  by (induction xs arbitrary: s) auto

lemma fold_hits:
  assumes "c \<in> set cs" "Q s0"
    and hit: "\<And>s. Q s \<Longrightarrow> R (f c s)"
    and q: "\<And>x s. Q s \<Longrightarrow> Q (f x s)"
    and r: "\<And>x s. R s \<Longrightarrow> R (f x s)"
  shows "R (fold f cs s0)"
  using assms(1,2)
proof (induction cs arbitrary: s0)
  case Nil
  then show ?case by simp
next
  case (Cons x xs)
  show ?case
  proof (cases "x = c")
    case True
    from hit[OF Cons.prems(2)] have "R (f x s0)" by (simp add: True)
    then have "R (fold f xs (f x s0))" by (simp add: fold_invariant[of R f] r)
    then show ?thesis by simp
  next
    case False
    with Cons.prems(1) have "c \<in> set xs" by simp
    from Cons.IH[OF this q[OF Cons.prems(2)]] show ?thesis by simp
  qed
qed

lemma shape_length: "length (shape st) = length st"
  by (simp add: shape_def)

lemma shape_eq_length:
  assumes "shape a = shape b"
  shows "length a = length b"
proof -
  have "length (shape a) = length (shape b)" by (simp only: assms)
  then show ?thesis by (simp only: shape_length)
qed

lemma shape_nth: "i < length st \<Longrightarrow> shape st ! i = (parent (st ! i), children (st ! i))"
  by (simp add: shape_def)

lemma shape_mark: "shape (mark i st) = shape st"
  by (cases "i < length st")
     (simp_all add: shape_def mark_def map_update list_update_same_conv list_update_beyond)

lemma shape_walk: "shape (cancel_walk n i st) = shape st"
proof (induction n arbitrary: i st)
  case 0
  show ?case by simp
next
  case (Suc n)
  have "shape (fold (cancel_walk n) cs s) = shape st" if "shape s = shape st" for cs s
    using that by (simp add: fold_invariant[of "\<lambda>s. shape s = shape st"] Suc.IH)
  then show ?case by (simp add: shape_mark)
qed

lemma length_walk: "length (cancel_walk n i st) = length st"
  by (rule shape_eq_length[OF shape_walk])

lemma mono_mark: "cancelled (st ! j) \<Longrightarrow> cancelled (mark i st ! j)"
  by (cases "i < length st") (auto simp: mark_def nth_list_update list_update_beyond)

lemma mono_walk: "cancelled (st ! j) \<Longrightarrow> cancelled (cancel_walk n i st ! j)"
proof (induction n arbitrary: i st)
  case 0
  then show ?case by simp
next
  case (Suc n)
  have "cancelled (fold (cancel_walk n) cs s ! j)" if "cancelled (s ! j)" for cs s
    using that by (simp add: fold_invariant[of "\<lambda>s. cancelled (s ! j)"] Suc.IH)
  with Suc.prems show ?case by (simp add: mono_mark)
qed

lemma reach_in_extend:
  "reach_in sh k s p \<Longrightarrow> c \<in> set (snd (sh ! p)) \<Longrightarrow> reach_in sh (Suc k) s c"
proof (induction k arbitrary: s)
  case 0
  then show ?case by simp
next
  case (Suc k)
  from Suc.prems(1) obtain a where a: "a \<in> set (snd (sh ! s))" "reach_in sh k a p" by auto
  from Suc.IH[OF a(2) Suc.prems(2)] have "reach_in sh (Suc k) a c" .
  with a(1) have "\<exists>a \<in> set (snd (sh ! s)). reach_in sh (Suc k) a c" by (rule bexI[rotated])
  then show ?case by (subst reach_in.simps(2))
qed

lemma wf_shape_child:
  "wf_shape sh \<Longrightarrow> p < length sh \<Longrightarrow> c \<in> set (snd (sh ! p)) \<Longrightarrow> p < c \<and> c < length sh"
  unfolding wf_shape_def by blast

lemma wf_shape_parent:
  "wf_shape sh \<Longrightarrow> d < length sh \<Longrightarrow> fst (sh ! d) = Some p \<Longrightarrow>
     p < d \<and> d \<in> set (snd (sh ! p))"
  unfolding wf_shape_def by blast

lemma reach_in_bound:
  "wf_shape sh \<Longrightarrow> s < length sh \<Longrightarrow> reach_in sh k s d \<Longrightarrow> s + k \<le> d \<and> d < length sh"
proof (induction k arbitrary: s)
  case 0
  then show ?case by simp
next
  case (Suc k)
  from Suc.prems(3) obtain c where c: "c \<in> set (snd (sh ! s))" "reach_in sh k c d" by auto
  from wf_shape_child[OF Suc.prems(1,2) c(1)] have lt: "s < c" "c < length sh" by simp_all
  from Suc.IH[OF Suc.prems(1) lt(2) c(2)] lt(1) show ?case by simp
qed

text \<open>The walk reaches every scope within the depth its fuel allows.\<close>

lemma walk_complete:
  "wf_shape (shape st) \<Longrightarrow> i < length st \<Longrightarrow> reach_in (shape st) k i d \<Longrightarrow> k < n \<Longrightarrow>
     cancelled (cancel_walk n i st ! d)"
proof (induction n arbitrary: st i k d)
  case 0
  then show ?case by simp
next
  case (Suc n)
  let ?cs = "children (st ! i)"
  have kids: "snd (shape st ! i) = ?cs" using Suc.prems(2) by (simp add: shape_nth)
  show ?case
  proof (cases k)
    case 0
    with Suc.prems(3) have "d = i" by simp
    with Suc.prems(2) have "cancelled (mark i st ! d)" by (simp add: mark_def)
    then have "cancelled (fold (cancel_walk n) ?cs (mark i st) ! d)"
      by (simp add: fold_invariant[of "\<lambda>s. cancelled (s ! d)"] mono_walk)
    then show ?thesis by simp
  next
    case (Suc k')
    with Suc.prems(3) kids obtain c where
      c: "c \<in> set ?cs" "reach_in (shape st) k' c d" by auto
    from Suc.prems(2) have "i < length (shape st)" by (simp add: shape_length)
    from wf_shape_child[OF Suc.prems(1) this] c(1) kids have c_lt: "c < length st"
      by (simp add: shape_length)
    from Suc Suc.prems(4) have k': "k' < n" by simp
    have "cancelled (fold (cancel_walk n) ?cs (mark i st) ! d)"
    proof (rule fold_hits[where Q = "\<lambda>s. shape s = shape st" and R = "\<lambda>s. cancelled (s ! d)",
          OF c(1)])
      show "shape (mark i st) = shape st" by (rule shape_mark)
    next
      fix s :: scopes assume s: "shape s = shape st"
      then have "length s = length st" by (rule shape_eq_length)
      with Suc.IH[of s c k' d] s Suc.prems(1) c(2) c_lt k'
      show "cancelled (cancel_walk n c s ! d)" by simp
    next
      fix x and s :: scopes assume "shape s = shape st"
      then show "shape (cancel_walk n x s) = shape st" by (simp add: shape_walk)
    next
      fix x and s :: scopes assume "cancelled (s ! d)"
      then show "cancelled (cancel_walk n x s ! d)" by (rule mono_walk)
    qed
    then show ?thesis by simp
  qed
qed

lemma fold_sound:
  assumes "R (fold f cs s0)" "Q s0"
    and step: "\<And>c s. c \<in> set cs \<Longrightarrow> Q s \<Longrightarrow> R (f c s) \<Longrightarrow> R s \<or> T c"
    and q: "\<And>c s. Q s \<Longrightarrow> Q (f c s)"
  shows "R s0 \<or> (\<exists>c \<in> set cs. T c)"
  using assms(1,2) step
proof (induction cs arbitrary: s0)
  case Nil
  then show ?case by simp
next
  case (Cons x xs)
  from Cons.prems(1) have r: "R (fold f xs (f x s0))" by simp
  have "R (f x s0) \<or> (\<exists>c \<in> set xs. T c)"
  proof (rule Cons.IH[OF r q[OF Cons.prems(2)]])
    fix c s assume "c \<in> set xs" "Q s" "R (f c s)"
    then show "R s \<or> T c" using Cons.prems(3)[of c s] by simp
  qed
  then show ?case
  proof
    assume "R (f x s0)"
    with Cons.prems(3)[of x s0] Cons.prems(2) show ?thesis by auto
  next
    assume "\<exists>c \<in> set xs. T c"
    then show ?thesis by auto
  qed
qed

lemma shape_parent: "d < length st \<Longrightarrow> fst (shape st ! d) = parent (st ! d)"
  by (simp add: shape_nth)

lemma shape_children: "p < length st \<Longrightarrow> snd (shape st ! p) = children (st ! p)"
  by (simp add: shape_nth)

lemma parent_walk: "d < length st \<Longrightarrow> parent (cancel_walk n i st ! d) = parent (st ! d)"
proof -
  assume d: "d < length st"
  then have "d < length (cancel_walk n i st)" by (simp add: length_walk)
  from shape_parent[OF this] shape_parent[OF d] show ?thesis by (simp add: shape_walk)
qed

text \<open>The walk marks only scopes reached from its start.\<close>

lemma walk_sound:
  "wf_shape (shape st) \<Longrightarrow> i < length st \<Longrightarrow> cancelled (cancel_walk n i st ! j) \<Longrightarrow>
     cancelled (st ! j) \<or> (\<exists>k. reach_in (shape st) k i j)"
proof (induction n arbitrary: st i)
  case 0
  then show ?case by simp
next
  case (Suc n)
  let ?cs = "children (st ! i)"
  have kids: "snd (shape st ! i) = ?cs" using Suc.prems(2) by (rule shape_children)
  from Suc.prems(2) have i_sh: "i < length (shape st)" by (simp add: shape_length)
  from Suc.prems(3) have r: "cancelled (fold (cancel_walk n) ?cs (mark i st) ! j)" by simp
  have "cancelled (mark i st ! j) \<or> (\<exists>c \<in> set ?cs. \<exists>k. reach_in (shape st) k c j)"
  proof (rule fold_sound[where Q = "\<lambda>s. shape s = shape st"
        and R = "\<lambda>s. cancelled (s ! j)" and T = "\<lambda>c. \<exists>k. reach_in (shape st) k c j", OF r])
    show "shape (mark i st) = shape st" by (rule shape_mark)
  next
    fix c and s :: scopes
    assume c: "c \<in> set ?cs" and s: "shape s = shape st" and m: "cancelled (cancel_walk n c s ! j)"
    from wf_shape_child[OF Suc.prems(1) i_sh] c kids have "c < length (shape st)" by simp
    then have c_lt: "c < length s" using shape_eq_length[OF s] by (simp add: shape_length)
    from Suc.IH[of s c] s Suc.prems(1) c_lt m
    show "cancelled (s ! j) \<or> (\<exists>k. reach_in (shape st) k c j)" by simp
  next
    fix c and s :: scopes assume "shape s = shape st"
    then show "shape (cancel_walk n c s) = shape st" by (simp add: shape_walk)
  qed
  then show ?case
  proof
    assume m: "cancelled (mark i st ! j)"
    show ?thesis
    proof (cases "j = i")
      case True
      have "reach_in (shape st) 0 i j" by (simp add: True)
      then show ?thesis by blast
    next
      case False
      with m have "cancelled (st ! j)"
        by (cases "i < length st") (simp_all add: mark_def list_update_beyond)
      then show ?thesis by blast
    qed
  next
    assume "\<exists>c \<in> set ?cs. \<exists>k. reach_in (shape st) k c j"
    then obtain c k where "c \<in> set ?cs" "reach_in (shape st) k c j" by blast
    with kids have "reach_in (shape st) (Suc k) i j" by auto
    then show ?thesis by blast
  qed
qed

lemma closed_downD:
  "closed_down st \<Longrightarrow> d < length st \<Longrightarrow> parent (st ! d) = Some p \<Longrightarrow> cancelled (st ! p) \<Longrightarrow>
     cancelled (st ! d)"
  unfolding closed_down_def by blast

lemma closed_downI:
  "(\<And>d p. d < length st \<Longrightarrow> parent (st ! d) = Some p \<Longrightarrow> cancelled (st ! p) \<Longrightarrow>
      cancelled (st ! d)) \<Longrightarrow> closed_down st"
  unfolding closed_down_def by blast

lemma scopes_parent:
  assumes "wf_shape (shape st)" "d < length st" "parent (st ! d) = Some p"
  shows "p < d \<and> d \<in> set (children (st ! p))"
proof -
  from assms(2) have d: "d < length (shape st)" by (simp add: shape_length)
  from assms(2,3) have "fst (shape st ! d) = Some p" by (simp add: shape_parent)
  from wf_shape_parent[OF assms(1) d this] have pd: "p < d" "d \<in> set (snd (shape st ! p))"
    by simp_all
  from pd(1) assms(2) have "p < length st" by simp
  with pd show ?thesis by (simp add: shape_children)
qed

lemma scopes_child:
  assumes "wf_shape (shape st)" "p < length st" "c \<in> set (children (st ! p))"
  shows "p < c \<and> c < length st"
proof -
  from assms(2) have p: "p < length (shape st)" by (simp add: shape_length)
  from assms(2,3) have "c \<in> set (snd (shape st ! p))" by (simp add: shape_children)
  from wf_shape_child[OF assms(1) p this] show ?thesis by (simp add: shape_length)
qed

lemma wf_shapeI:
  assumes par: "\<And>d p. d < length st \<Longrightarrow> parent (st ! d) = Some p \<Longrightarrow>
                  p < d \<and> d \<in> set (children (st ! p))"
    and kid: "\<And>p c. p < length st \<Longrightarrow> c \<in> set (children (st ! p)) \<Longrightarrow> p < c \<and> c < length st"
  shows "wf_shape (shape st)"
  unfolding wf_shape_def
proof (intro conjI allI impI ballI)
  fix d p assume d: "d < length (shape st)" and p: "fst (shape st ! d) = Some p"
  from d have d': "d < length st" by (simp add: shape_length)
  with p have "parent (st ! d) = Some p" by (simp add: shape_parent)
  from par[OF d' this] show "p < d" by simp
  from par[OF d' \<open>parent (st ! d) = Some p\<close>] d' show "d \<in> set (snd (shape st ! p))"
    by (simp add: shape_children)
next
  fix p c assume p: "p < length (shape st)" and c: "c \<in> set (snd (shape st ! p))"
  from p have p': "p < length st" by (simp add: shape_length)
  with c have "c \<in> set (children (st ! p))" by (simp add: shape_children)
  from kid[OF p' this] show "p < c" "c < length (shape st)" by (simp_all add: shape_length)
qed

text \<open>Cancelling keeps the links, never clears a flag, marks the scope itself, and leaves
  every cancelled scope with only cancelled children.\<close>

lemma Context_cancel_closed_down:
  assumes wf: "wf_shape (shape st)" and cd: "closed_down st" and S: "S < length st"
  shows "closed_down (Context_cancel S st)"
proof (rule closed_downI)
  fix d p
  let ?st' = "Context_cancel S st"
  assume "d < length ?st'" "parent (?st' ! d) = Some p" "cancelled (?st' ! p)"
  then have d: "d < length st" and par: "parent (st ! d) = Some p"
    and pc: "cancelled (cancel_walk (length st) S st ! p)"
    by (simp_all add: Context_cancel_def length_walk parent_walk)
  note pd = scopes_parent[OF wf d par]
  from walk_sound[OF wf S pc] show "cancelled (?st' ! d)"
  proof
    assume "cancelled (st ! p)"
    from closed_downD[OF cd d par this] show ?thesis
      by (simp add: Context_cancel_def mono_walk)
  next
    assume "\<exists>k. reach_in (shape st) k S p"
    then obtain k where k: "reach_in (shape st) k S p" by blast
    from pd d have "p < length st" by simp
    with pd have "d \<in> set (snd (shape st ! p))" by (simp add: shape_children)
    from reach_in_extend[OF k this] have r: "reach_in (shape st) (Suc k) S d" .
    from S have "S < length (shape st)" by (simp add: shape_length)
    from reach_in_bound[OF wf this r] have "Suc k < length st" by (simp add: shape_length)
    from walk_complete[OF wf S r this] show ?thesis by (simp add: Context_cancel_def)
  qed
qed

lemma Context_cancel_marks: "S < length st \<Longrightarrow> cancelled (Context_cancel S st ! S)"
proof -
  assume S: "S < length st"
  then obtain n where n: "length st = Suc n" by (cases "length st") simp_all
  from S have "cancelled (mark S st ! S)" by (simp add: mark_def)
  then have "cancelled (fold (cancel_walk n) (children (st ! S)) (mark S st) ! S)"
    by (simp add: fold_invariant[of "\<lambda>s. cancelled (s ! S)"] mono_walk)
  then show ?thesis by (simp add: Context_cancel_def n)
qed

lemma Context_new_length: "length (snd (Context_new p st)) = Suc (length st)"
  by (simp add: Context_new_def Let_def split: option.splits)

lemma Context_new_nth:
  assumes "case p of None \<Rightarrow> True | Some q \<Rightarrow> q < length st" "j \<le> length st"
  shows "parent (snd (Context_new p st) ! j) = (if j = length st then p else parent (st ! j))"
    and "children (snd (Context_new p st) ! j) =
           (if j = length st then []
            else if p = Some j then children (st ! j) @ [length st] else children (st ! j))"
    and "cancelled (snd (Context_new p st) ! j) =
           (if j = length st then (case p of None \<Rightarrow> False | Some q \<Rightarrow> cancelled (st ! q))
            else cancelled (st ! j))"
  using assms
  by (auto simp: Context_new_def Let_def nth_append nth_list_update split: option.splits)

lemma Context_new_wf:
  assumes wf: "wf_shape (shape st)" and valid: "case p of None \<Rightarrow> True | Some q \<Rightarrow> q < length st"
  shows "wf_shape (shape (snd (Context_new p st)))"
proof (rule wf_shapeI)
  fix d pp
  assume d: "d < length (snd (Context_new p st))"
    and par: "parent (snd (Context_new p st) ! d) = Some pp"
  from d have d': "d \<le> length st" by (simp add: Context_new_length)
  show "pp < d \<and> d \<in> set (children (snd (Context_new p st) ! pp))"
  proof (cases "d = length st")
    case True
    with par d' have p: "p = Some pp" by (simp add: Context_new_nth(1)[OF valid])
    with valid have pp: "pp < length st" by simp
    then have "pp \<le> length st" by simp
    from Context_new_nth(2)[OF valid this] pp p True show ?thesis by simp
  next
    case False
    with d' have dl: "d < length st" by simp
    from par False d' have "parent (st ! d) = Some pp" by (simp add: Context_new_nth(1)[OF valid])
    from scopes_parent[OF wf dl this] have pd: "pp < d" "d \<in> set (children (st ! pp))"
      by simp_all
    from pd(1) dl have "pp \<le> length st" "pp \<noteq> length st" by simp_all
    from Context_new_nth(2)[OF valid this(1)] this(2) pd show ?thesis by simp
  qed
next
  fix pp c
  assume pp: "pp < length (snd (Context_new p st))"
    and c: "c \<in> set (children (snd (Context_new p st) ! pp))"
  from pp have pp': "pp \<le> length st" by (simp add: Context_new_length)
  from c Context_new_nth(2)[OF valid pp'] have ne: "pp \<noteq> length st" by auto
  with pp' have ppl: "pp < length st" by simp
  from c Context_new_nth(2)[OF valid pp'] ne
  have "c \<in> set (children (st ! pp)) \<or> c = length st" by (auto split: if_splits)
  then show "pp < c \<and> c < length (snd (Context_new p st))"
  proof
    assume "c \<in> set (children (st ! pp))"
    from scopes_child[OF wf ppl this] show ?thesis by (simp add: Context_new_length)
  next
    assume "c = length st"
    with ppl show ?thesis by (simp add: Context_new_length)
  qed
qed

lemma Context_new_closed_down:
  assumes wf: "wf_shape (shape st)" and cd: "closed_down st"
    and valid: "case p of None \<Rightarrow> True | Some q \<Rightarrow> q < length st"
  shows "closed_down (snd (Context_new p st))"
proof (rule closed_downI)
  fix d pp
  assume d: "d < length (snd (Context_new p st))"
    and par: "parent (snd (Context_new p st) ! d) = Some pp"
    and c: "cancelled (snd (Context_new p st) ! pp)"
  from d have d': "d \<le> length st" by (simp add: Context_new_length)
  show "cancelled (snd (Context_new p st) ! d)"
  proof (cases "d = length st")
    case True
    with par d' have p: "p = Some pp" by (simp add: Context_new_nth(1)[OF valid])
    with valid have pp: "pp < length st" by simp
    then have "pp \<le> length st" "pp \<noteq> length st" by simp_all
    from c Context_new_nth(3)[OF valid this(1)] this(2) have "cancelled (st ! pp)" by simp
    with Context_new_nth(3)[OF valid d'] True p show ?thesis by simp
  next
    case False
    with d' have dl: "d < length st" by simp
    from par False d' have par': "parent (st ! d) = Some pp"
      by (simp add: Context_new_nth(1)[OF valid])
    from scopes_parent[OF wf dl par'] dl have "pp \<le> length st" "pp \<noteq> length st" by simp_all
    from c Context_new_nth(3)[OF valid this(1)] this(2) have "cancelled (st ! pp)" by simp
    from closed_downD[OF cd dl par' this] Context_new_nth(3)[OF valid d'] False
    show ?thesis by simp
  qed
qed

lemma Context_new_mono:
  assumes "case p of None \<Rightarrow> True | Some q \<Rightarrow> q < length st" "j < length st" "cancelled (st ! j)"
  shows "cancelled (snd (Context_new p st) ! j)"
proof -
  from assms(2) have "j \<le> length st" "j \<noteq> length st" by simp_all
  from Context_new_nth(3)[OF assms(1) this(1)] this(2) assms(3) show ?thesis by simp
qed

lemma scopes_inv_new:
  "scopes_inv st \<Longrightarrow> (case p of None \<Rightarrow> True | Some q \<Rightarrow> q < length st) \<Longrightarrow>
     scopes_inv (snd (Context_new p st))"
  by (simp add: scopes_inv_def Context_new_wf Context_new_closed_down)

lemma scopes_inv_cancel: "scopes_inv st \<Longrightarrow> i < length st \<Longrightarrow> scopes_inv (Context_cancel i st)"
  by (simp add: scopes_inv_def Context_cancel_closed_down) (simp add: Context_cancel_def shape_walk)

lemma run_ops_keeps:
  "run_ops ops st = Some st' \<Longrightarrow> scopes_inv st \<Longrightarrow> j < length st \<Longrightarrow> cancelled (st ! j) \<Longrightarrow>
     scopes_inv st' \<and> j < length st' \<and> cancelled (st' ! j)"
proof (induction ops st arbitrary: st' rule: run_ops.induct)
  case (1 st)
  then show ?case by simp
next
  case (2 ops st)
  let ?s = "snd (Context_new None st)"
  from "2.prems"(1) have r: "run_ops ops ?s = Some st'" by simp
  have "scopes_inv ?s" using "2.prems"(2) by (simp add: scopes_inv_new)
  moreover have "j < length ?s" using "2.prems"(3) by (simp add: Context_new_length)
  moreover have "cancelled (?s ! j)" using "2.prems"(3,4) by (simp add: Context_new_mono)
  ultimately show ?case by (rule "2.IH"[OF r])
next
  case (3 q ops st)
  let ?s = "snd (Context_new (Some q) st)"
  from "3.prems"(1) have q: "q < length st" and r: "run_ops ops ?s = Some st'"
    by (simp_all split: if_splits)
  have "scopes_inv ?s" using "3.prems"(2) q by (simp add: scopes_inv_new)
  moreover have "j < length ?s" using "3.prems"(3) by (simp add: Context_new_length)
  moreover have "cancelled (?s ! j)" using "3.prems"(3,4) q by (simp add: Context_new_mono)
  ultimately show ?case by (rule "3.IH"[OF q r])
next
  case (4 i ops st)
  let ?s = "Context_cancel i st"
  from "4.prems"(1) have i: "i < length st" and r: "run_ops ops ?s = Some st'"
    by (simp_all split: if_splits)
  have "scopes_inv ?s" using "4.prems"(2) i by (simp add: scopes_inv_cancel)
  moreover have "j < length ?s" using "4.prems"(3) by (simp add: Context_cancel_def length_walk)
  moreover have "cancelled (?s ! j)" using "4.prems"(4) by (simp add: Context_cancel_def mono_walk)
  ultimately show ?case by (rule "4.IH"[OF i r])
qed

lemma run_ops_inv: "run_ops ops st = Some st' \<Longrightarrow> scopes_inv st \<Longrightarrow> scopes_inv st'"
proof (induction ops st arbitrary: st' rule: run_ops.induct)
  case (1 st)
  then show ?case by simp
next
  case (2 ops st)
  then show ?case by (simp add: scopes_inv_new)
next
  case (3 q ops st)
  then show ?case by (simp add: scopes_inv_new split: if_splits)
next
  case (4 i ops st)
  then show ?case by (simp add: scopes_inv_cancel split: if_splits)
qed

lemma scopes_inv_empty: "scopes_inv []"
  by (simp add: scopes_inv_def wf_shape_def closed_down_def shape_def)

text \<open>
  C9. Take any scopes a program has built, cancel one of them, \<open>S\<close>, and let the program go
  on creating and cancelling scopes. Then every scope \<open>D\<close> whose chain of parents leads to
  \<open>S\<close>, whether it existed when \<open>S\<close> was cancelled or was created later, is done.
\<close>

theorem cancel_marks_every_descendant:
  assumes "run_ops before [] = Some st" and "S < length st"
    and "run_ops after (Context_cancel S st) = Some st'"
    and "descendant st' S D"
  shows "Context_done D st'"
proof -
  from run_ops_inv[OF assms(1) scopes_inv_empty] have inv: "scopes_inv st" .
  have "scopes_inv (Context_cancel S st)" using inv assms(2) by (rule scopes_inv_cancel)
  moreover have "S < length (Context_cancel S st)"
    using assms(2) by (simp add: Context_cancel_def length_walk)
  moreover have "cancelled (Context_cancel S st ! S)" using assms(2) by (rule Context_cancel_marks)
  ultimately have after: "scopes_inv st'" "cancelled (st' ! S)"
    using run_ops_keeps[OF assms(3)] by simp_all
  from after(1) have cd: "closed_down st'" by (simp add: scopes_inv_def)
  from assms(4) have "cancelled (st' ! D)"
  proof (induction rule: descendant.induct)
    case descendant_self
    from after(2) show ?case .
  next
    case (descendant_child p d)
    from closed_downD[OF cd descendant_child.hyps(2,3) descendant_child.IH] show ?case .
  qed
  then show ?thesis by (simp add: Context_done_def)
qed

lemma family_built: "run_ops [New None, New (Some 0), New (Some 1)] [] = Some family"
  by (simp add: Context_new_def family_def Let_def)

lemma family_cancelled:
  "run_ops [New (Some 2)] (Context_cancel 0 family) = Some family_after"
  by (simp add: Context_new_def Context_cancel_def mark_def family_def family_after_def Let_def)

lemma family_descendant: "descendant family_after 0 3"
proof -
  have d0: "descendant family_after 0 0"
    by (rule descendant_self) (simp add: family_after_def)
  have d1: "descendant family_after 0 1"
    by (rule descendant_child[OF d0]) (simp_all add: family_after_def)
  have d2: "descendant family_after 0 2"
    by (rule descendant_child[OF d1]) (simp_all add: family_after_def)
  show ?thesis
    by (rule descendant_child[OF d2]) (simp_all add: family_after_def)
qed

theorem cancel_marks_every_descendant_witness:
  "run_ops [New None, New (Some 0), New (Some 1)] [] = Some family \<and>
   0 < length family \<and>
   run_ops [New (Some 2)] (Context_cancel 0 family) = Some family_after \<and>
   descendant family_after 0 3 \<and>
   Context_done 3 family_after"
proof -
  have len: "0 < length family" by (simp add: family_def)
  from cancel_marks_every_descendant[OF family_built len family_cancelled family_descendant]
  have "Context_done 3 family_after" .
  with family_built len family_cancelled family_descendant show ?thesis by (intro conjI)
qed

end
